theory Spec2Isabelle
  imports Main
begin

section \<open>Transport, messages and effects\<close>

text \<open>
  The server in \<^verbatim>\<open>src/main.py\<close> is a set of asyncio coroutines around one shared
  \<^verbatim>\<open>ConnectionManager\<close>. A \<^verbatim>\<open>WebSocket\<close> object is compared by identity, so a
  handle is modelled by a number. The transport (accept, send, receive), the clock and the
  scheduler are outside the program: what they answer is an input of the model, and what
  the program asks of them is written to a trace, oldest event first.
\<close>

type_synonym websocket = nat

datatype json = JStr string | JInt int

text \<open>A JSON object literal of the source, as the list of its key/value pairs.\<close>

type_synonym message = "(string \<times> json) list"

text \<open>
  The exceptions the code distinguishes. \<^verbatim>\<open>asyncio.CancelledError\<close> derives from
  \<^verbatim>\<open>BaseException\<close>, so \<^verbatim>\<open>except Exception\<close> does not catch it; every other
  one is an \<^verbatim>\<open>Exception\<close>. \<open>RuntimeError\<close> stands for any exception that no clause
  of the code names.
\<close>

datatype exn = WebSocketDisconnect | TimeoutError | CancelledError | RuntimeError

definition is_Exception :: "exn \<Rightarrow> bool" where
  "is_Exception e = (e \<noteq> CancelledError)"

text \<open>What an awaited call of the transport answers.\<close>

datatype 'a outcome = Returns 'a | Raises exn

datatype event =
    Accept websocket "unit outcome"
  | LockAcquire
  | LockRelease
  | SetAdd websocket
  | SetDiscard websocket
  | SetCopy
  | SetSubtract "websocket set"
  | SendJson websocket message "unit outcome"
  | ReceiveText websocket "string outcome"

text \<open>The suspension points of a coroutine: the awaits on the transport.\<close>

fun is_io :: "event \<Rightarrow> bool" where
  "is_io (Accept _ _) = True"
| "is_io (SendJson _ _ _) = True"
| "is_io (ReceiveText _ _) = True"
| "is_io _ = False"

fun is_mutation :: "event \<Rightarrow> bool" where
  "is_mutation (SetAdd _) = True"
| "is_mutation (SetDiscard _) = True"
| "is_mutation (SetSubtract _) = True"
| "is_mutation _ = False"

section \<open>ConnectionManager\<close>

text \<open>
  \<^verbatim>\<open>self.active_connections\<close> is the set of live handles. \<^verbatim>\<open>self._lock\<close> is
  taken and released inside one run of a coroutine between two awaits, so it is free
  whenever a coroutine starts or resumes; the trace records each acquire and release.
\<close>

record world =
  active_connections :: "websocket set"
  trace :: "event list"

definition emit :: "event \<Rightarrow> world \<Rightarrow> world" where
  "emit e w = w\<lparr>trace := trace w @ [e]\<rparr>"

definition init_world :: world where
  "init_world = \<lparr>active_connections = {}, trace = []\<rparr>"

definition connection_count :: "world \<Rightarrow> nat" where
  "connection_count w = card (active_connections w)"

text \<open>
  \<^verbatim>\<open>connect\<close>: the handshake is awaited first; when it raises, nothing below it runs.
  The result is the exception that leaves the call, if any, and the world after it.
\<close>

definition connect :: "world \<Rightarrow> websocket \<Rightarrow> unit outcome \<Rightarrow> exn option \<times> world" where
  "connect w websocket accepted =
     (let w1 = emit (Accept websocket accepted) w in
      case accepted of
        Raises e \<Rightarrow> (Some e, w1)
      | Returns _ \<Rightarrow>
          (let w2 = emit LockAcquire w1;
               w3 = emit (SetAdd websocket)
                      (w2\<lparr>active_connections := insert websocket (active_connections w2)\<rparr>);
               w4 = emit LockRelease w3
           in (None, w4)))"

definition disconnect :: "world \<Rightarrow> websocket \<Rightarrow> world" where
  "disconnect w websocket =
     (let w1 = emit LockAcquire w;
          w2 = emit (SetDiscard websocket)
                 (w1\<lparr>active_connections := active_connections w1 - {websocket}\<rparr>);
          w3 = emit LockRelease w2
      in w3)"

text \<open>
  The send pass of \<^verbatim>\<open>broadcast\<close>: the \<^verbatim>\<open>for\<close> loop over the snapshot. A send that
  raises an \<^verbatim>\<open>Exception\<close> puts the handle into \<^verbatim>\<open>disconnected\<close> and the loop goes
  on; a cancellation leaves the loop and the call. \<open>sends c\<close> is what the transport
  answers to the send on handle \<open>c\<close>.
\<close>

fun send_pass ::
  "websocket list \<Rightarrow> message \<Rightarrow> (websocket \<Rightarrow> unit outcome) \<Rightarrow> websocket set \<Rightarrow> world
     \<Rightarrow> exn option \<times> websocket set \<times> world" where
  "send_pass [] message sends disconnected w = (None, disconnected, w)"
| "send_pass (connection # rest) message sends disconnected w =
     (let w1 = emit (SendJson connection message (sends connection)) w in
      case sends connection of
        Returns _ \<Rightarrow> send_pass rest message sends disconnected w1
      | Raises e \<Rightarrow>
          if is_Exception e
          then send_pass rest message sends (insert connection disconnected) w1
          else (Some e, disconnected, w1))"

text \<open>
  \<^verbatim>\<open>broadcast\<close>. Python iterates a set in an order of its own; the model takes the
  handles in increasing order, which loses nothing since handles are arbitrary numbers.
\<close>

definition broadcast ::
  "world \<Rightarrow> message \<Rightarrow> (websocket \<Rightarrow> unit outcome) \<Rightarrow> exn option \<times> world" where
  "broadcast w message sends =
     (if active_connections w = {} then (None, w)
      else
        (let w1 = emit LockAcquire w;
             connections = active_connections w1;
             w2 = emit LockRelease (emit SetCopy w1)
         in case send_pass (sorted_list_of_set connections) message sends {} w2 of
              (Some e, disconnected, w3) \<Rightarrow> (Some e, w3)
            | (None, disconnected, w3) \<Rightarrow>
                if disconnected \<noteq> {}
                then
                  (let w4 = emit LockAcquire w3;
                       w5 = emit (SetSubtract disconnected)
                              (w4\<lparr>active_connections := active_connections w4 - disconnected\<rparr>);
                       w6 = emit LockRelease w5
                   in (None, w6))
                else (None, w3)))"

text \<open>Readings of a trace: the send attempts, and the sends that were delivered.\<close>

fun send_attempts :: "event list \<Rightarrow> (websocket \<times> message) list" where
  "send_attempts [] = []"
| "send_attempts (SendJson c m r # es) = (c, m) # send_attempts es"
| "send_attempts (e # es) = send_attempts es"

fun deliveries :: "event list \<Rightarrow> (websocket \<times> message) list" where
  "deliveries [] = []"
| "deliveries (SendJson c m (Returns u) # es) = (c, m) # deliveries es"
| "deliveries (e # es) = deliveries es"

text \<open>A send on handle \<open>c\<close> fails when it raises an \<^verbatim>\<open>Exception\<close>.\<close>

definition send_fails :: "(websocket \<Rightarrow> unit outcome) \<Rightarrow> websocket \<Rightarrow> bool" where
  "send_fails sends c = (case sends c of Returns _ \<Rightarrow> False | Raises e \<Rightarrow> is_Exception e)"

definition send_cancelled :: "(websocket \<Rightarrow> unit outcome) \<Rightarrow> websocket \<Rightarrow> bool" where
  "send_cancelled sends c = (case sends c of Returns _ \<Rightarrow> False | Raises e \<Rightarrow> \<not> is_Exception e)"

section \<open>Sequences of registry calls\<close>

text \<open>
  A call of one of the three coroutines of the manager, with what the transport answers
  to it. An exception that leaves a call is the caller's; the registry stays as the call
  left it.
\<close>

datatype op =
    Connect websocket "unit outcome"
  | Disconnect websocket
  | Broadcast message "websocket \<Rightarrow> unit outcome"

fun apply_op :: "world \<Rightarrow> op \<Rightarrow> world" where
  "apply_op w (Connect websocket accepted) = snd (connect w websocket accepted)"
| "apply_op w (Disconnect websocket) = disconnect w websocket"
| "apply_op w (Broadcast message sends) = snd (broadcast w message sends)"

fun run_ops :: "world \<Rightarrow> op list \<Rightarrow> world" where
  "run_ops w [] = w"
| "run_ops w (x # xs) = run_ops (apply_op w x) xs"






section \<open>GracefulShutdownManager\<close>

record GracefulShutdownManager =
  timeout_minutes :: int
  shutdown_initiated :: bool
  shutdown_event :: bool

definition new_shutdown_manager :: "int \<Rightarrow> GracefulShutdownManager" where
  "new_shutdown_manager minutes =
     \<lparr>timeout_minutes = minutes, shutdown_initiated = False, shutdown_event = False\<rparr>"

text \<open>The default of the constructor, which the module's \<^verbatim>\<open>shutdown_manager\<close> uses.\<close>

definition shutdown_manager :: GracefulShutdownManager where
  "shutdown_manager = new_shutdown_manager 30"

definition initiate_shutdown :: "GracefulShutdownManager \<Rightarrow> GracefulShutdownManager" where
  "initiate_shutdown sm = sm\<lparr>shutdown_initiated := True\<rparr>"

text \<open>
  Time is counted in microseconds, the resolution of \<^verbatim>\<open>datetime\<close>. The clock and the
  registry are read once per pass of the loop; what they show at pass \<open>k\<close> is an input,
  as is what the sleep after pass \<open>k\<close> answers.
\<close>

definition minutes :: "int \<Rightarrow> int" where
  "minutes m = m * 60000000"

definition seconds :: "int \<Rightarrow> int" where
  "seconds s = s * 1000000"

text \<open>
  A \<^verbatim>\<open>timedelta\<close> holds between -999999999 and 999999999 whole days, the days being
  the microseconds divided by a day and rounded down; its constructor and its subtraction
  raise \<^verbatim>\<open>OverflowError\<close> outside that range.
\<close>

definition timedelta_ok :: "int \<Rightarrow> bool" where
  "timedelta_ok us = (abs (us div 86400000000) \<le> 999999999)"

record poll_env =
  start_time :: int
  now_at :: "nat \<Rightarrow> int"
  world_at :: "nat \<Rightarrow> world"
  sleep_at :: "nat \<Rightarrow> unit outcome"

text \<open>
  How a call of \<^verbatim>\<open>wait_for_shutdown\<close> ends: by its early return, by one of the two
  \<^verbatim>\<open>break\<close>s, by an exception out of a sleep, or by an \<^verbatim>\<open>OverflowError\<close> out of
  the arithmetic on \<^verbatim>\<open>timedelta\<close>.
\<close>

datatype exit_path = NotInitiated | Graceful | Forced | Interrupted exn | Overflowed

record wait_result =
  path :: exit_path
  polls :: nat
  sleeps :: nat
  manager_after :: GracefulShutdownManager

text \<open>
  The \<^verbatim>\<open>while True\<close> loop of \<^verbatim>\<open>wait_for_shutdown\<close>, from pass \<open>k\<close> on. It has no
  bound of its own, so the model takes fuel: \<open>None\<close> is a loop still running when the
  fuel is spent. The answer is how the loop was left and the pass at which it was. Each
  pass computes \<^verbatim>\<open>remaining = timeout - elapsed\<close> before it tests anything, and that
  subtraction raises when its result is no \<^verbatim>\<open>timedelta\<close>; the constructor
  \<^verbatim>\<open>timedelta(minutes=self.timeout_minutes)\<close> raises likewise, before the loop.
\<close>

fun wait_loop :: "nat \<Rightarrow> poll_env \<Rightarrow> int \<Rightarrow> nat \<Rightarrow> (exit_path \<times> nat) option" where
  "wait_loop 0 env timeout k = None"
| "wait_loop (Suc fuel) env timeout k =
     (let connection_count = connection_count (world_at env k);
          elapsed = now_at env k - start_time env;
          remaining = timeout - elapsed
      in if \<not> timedelta_ok remaining then Some (Overflowed, k)
         else if connection_count = 0 then Some (Graceful, k)
         else if elapsed \<ge> timeout then Some (Forced, k)
         else (case sleep_at env k of
                 Raises e \<Rightarrow> Some (Interrupted e, k)
               | Returns _ \<Rightarrow> wait_loop fuel env timeout (Suc k)))"

definition wait_for_shutdown ::
  "nat \<Rightarrow> GracefulShutdownManager \<Rightarrow> poll_env \<Rightarrow> wait_result option" where
  "wait_for_shutdown fuel sm env =
     (if \<not> shutdown_initiated sm
      then Some \<lparr>path = NotInitiated, polls = 0, sleeps = 0, manager_after = sm\<rparr>
      else if \<not> timedelta_ok (minutes (timeout_minutes sm))
      then Some \<lparr>path = Overflowed, polls = 0, sleeps = 0, manager_after = sm\<rparr>
      else
        (case wait_loop fuel env (minutes (timeout_minutes sm)) 0 of
           None \<Rightarrow> None
         | Some (Interrupted e, k) \<Rightarrow>
             Some \<lparr>path = Interrupted e, polls = Suc k, sleeps = Suc k, manager_after = sm\<rparr>
         | Some (Overflowed, k) \<Rightarrow>
             Some \<lparr>path = Overflowed, polls = Suc k, sleeps = k, manager_after = sm\<rparr>
         | Some (p, k) \<Rightarrow>
             Some \<lparr>path = p, polls = Suc k, sleeps = k,
                   manager_after = sm\<lparr>shutdown_event := True\<rparr>\<rparr>))"

section \<open>notification_broadcaster\<close>

text \<open>Python's rendering of a non-negative integer in an f-string: its decimal digits.\<close>

definition digit_char :: "nat \<Rightarrow> char" where
  "digit_char d = char_of (48 + d)"

function str_nat :: "nat \<Rightarrow> string" where
  "str_nat n = (if n < 10 then [digit_char n] else str_nat (n div 10) @ [digit_char (n mod 10)])"
  by pat_completeness auto
termination
  by (relation "measure (\<lambda>n. n)") auto

declare str_nat.simps [simp del]

definition notification_message :: "nat \<Rightarrow> string \<Rightarrow> nat \<Rightarrow> message" where
  "notification_message counter timestamp count =
     [(''type'', JStr ''notification''),
      (''message'', JStr (''Periodic notification #'' @ str_nat counter)),
      (''timestamp'', JStr timestamp),
      (''active_connections'', JInt (int count))]"

text \<open>
  One pass of the loop as the environment shapes it: the flag read at the loop test, what
  the sleep answers, the registry calls other coroutines made while this one slept, the
  clock reading, and what the transport answers to each send of the broadcast.
\<close>

record tick =
  shutdown_seen :: bool
  sleep_result :: "unit outcome"
  meanwhile :: "op list"
  now :: string
  send_results :: "websocket \<Rightarrow> unit outcome"

datatype stop = FlagSeen | Cancelled | Sleeping

record broadcaster_result =
  stopped :: stop
  counter_after :: nat
  payloads :: "message list"
  world_after :: world

definition built :: "message \<Rightarrow> broadcaster_result \<Rightarrow> broadcaster_result" where
  "built m r = r\<lparr>payloads := m # payloads r\<rparr>"

text \<open>
  The loop from a given counter on. When the ticks run out the coroutine is in its next
  sleep (\<open>Sleeping\<close>). The payloads built are collected in the order they were built.
\<close>

fun broadcaster_loop :: "nat \<Rightarrow> world \<Rightarrow> tick list \<Rightarrow> broadcaster_result" where
  "broadcaster_loop counter w [] =
     \<lparr>stopped = Sleeping, counter_after = counter, payloads = [], world_after = w\<rparr>"
| "broadcaster_loop counter w (t # ts) =
     (if shutdown_seen t
      then \<lparr>stopped = FlagSeen, counter_after = counter, payloads = [], world_after = w\<rparr>
      else
        (let w1 = run_ops w (meanwhile t) in
         case sleep_result t of
           Raises e \<Rightarrow>
             if e = CancelledError
             then \<lparr>stopped = Cancelled, counter_after = counter, payloads = [], world_after = w1\<rparr>
             else broadcaster_loop counter w1 ts
         | Returns _ \<Rightarrow>
             (let counter1 = counter + 1;
                  message = notification_message counter1 (now t) (connection_count w1)
              in case broadcast w1 message (send_results t) of
                   (None, w2) \<Rightarrow> built message (broadcaster_loop counter1 w2 ts)
                 | (Some e, w2) \<Rightarrow>
                     if e = CancelledError
                     then \<lparr>stopped = Cancelled, counter_after = counter1,
                           payloads = [message], world_after = w2\<rparr>
                     else built message (broadcaster_loop counter1 w2 ts))))"

definition notification_broadcaster :: "world \<Rightarrow> tick list \<Rightarrow> broadcaster_result" where
  "notification_broadcaster w ticks = broadcaster_loop 0 w ticks"

text \<open>
  A tick that runs to its end: the flag is not set, the sleep returns, and no send of
  the broadcast is cancelled.
\<close>

definition tick_completes :: "tick \<Rightarrow> bool" where
  "tick_completes t =
     (\<not> shutdown_seen t \<and> sleep_result t = Returns () \<and>
      list_all (\<lambda>e. \<not> (\<exists>c. send_results t c = Raises e)) [CancelledError])"

text \<open>
  The registry as tick \<open>i\<close> finds it when it builds its payload: what the loop left
  after the ticks before it, then the calls other coroutines made during its sleep.
\<close>

definition registry_at_build :: "world \<Rightarrow> tick list \<Rightarrow> nat \<Rightarrow> world" where
  "registry_at_build w ticks i =
     run_ops (world_after (notification_broadcaster w (take i ticks))) (meanwhile (ticks ! i))"

section \<open>websocket_endpoint\<close>

definition welcome_message :: "string \<Rightarrow> message" where
  "welcome_message timestamp =
     [(''type'', JStr ''welcome''),
      (''message'', JStr ''Connected to WebSocket server''),
      (''timestamp'', JStr timestamp)]"

definition echo_message :: "string \<Rightarrow> string \<Rightarrow> message" where
  "echo_message data timestamp =
     [(''type'', JStr ''echo''),
      (''message'', JStr (''Server received: '' @ data)),
      (''timestamp'', JStr timestamp)]"

definition ping_message :: "string \<Rightarrow> message" where
  "ping_message timestamp = [(''type'', JStr ''ping''), (''timestamp'', JStr timestamp)]"

text \<open>
  The transport's answers to one session: \<open>receives\<close> to the successive
  \<^verbatim>\<open>wait_for(receive_text(), 60.0)\<close> (an idle timeout is \<open>Raises TimeoutError\<close>),
  \<open>answers\<close> to the successive \<^verbatim>\<open>send_json\<close>; \<open>clock n\<close> is the n-th reading of
  \<^verbatim>\<open>datetime.now().isoformat()\<close>. A coroutine that awaits an answer the script does
  not hold is suspended there.
\<close>

definition send_json ::
  "websocket \<Rightarrow> message \<Rightarrow> unit outcome list \<Rightarrow> world
     \<Rightarrow> (unit outcome \<times> unit outcome list \<times> world) option" where
  "send_json websocket m answers w =
     (case answers of
        [] \<Rightarrow> None
      | a # rest \<Rightarrow> Some (a, rest, emit (SendJson websocket m a) w))"

datatype step = Continue | Raise exn | Blocked

text \<open>The \<^verbatim>\<open>except asyncio.TimeoutError\<close> clause: one ping; what it raises leaves the loop.\<close>

definition on_timeout ::
  "websocket \<Rightarrow> unit outcome list \<Rightarrow> (nat \<Rightarrow> string) \<Rightarrow> nat \<Rightarrow> world
     \<Rightarrow> step \<times> unit outcome list \<times> nat \<times> world" where
  "on_timeout websocket answers clock n w =
     (case send_json websocket (ping_message (clock n)) answers w of
        None \<Rightarrow> (Blocked, answers, n, w)
      | Some (Returns _, rest, w1) \<Rightarrow> (Continue, rest, Suc n, w1)
      | Some (Raises e, rest, w1) \<Rightarrow> (Raise e, rest, Suc n, w1))"

text \<open>
  One pass of the \<^verbatim>\<open>while True\<close> body, given the answer \<open>r\<close> to the receive. The inner
  \<^verbatim>\<open>try\<close> covers the receive and the echo, so a \<open>TimeoutError\<close> from either reaches
  the ping.
\<close>

definition iteration ::
  "websocket \<Rightarrow> string outcome \<Rightarrow> unit outcome list \<Rightarrow> (nat \<Rightarrow> string) \<Rightarrow> nat \<Rightarrow> world
     \<Rightarrow> step \<times> unit outcome list \<times> nat \<times> world" where
  "iteration websocket r answers clock n w =
     (let w1 = emit (ReceiveText websocket r) w in
      case r of
        Returns data \<Rightarrow>
          (case send_json websocket (echo_message data (clock n)) answers w1 of
             None \<Rightarrow> (Blocked, answers, n, w1)
           | Some (Returns _, rest, w2) \<Rightarrow> (Continue, rest, Suc n, w2)
           | Some (Raises e, rest, w2) \<Rightarrow>
               if e = TimeoutError then on_timeout websocket rest clock (Suc n) w2
               else (Raise e, rest, Suc n, w2))
      | Raises e \<Rightarrow>
          if e = TimeoutError then on_timeout websocket answers clock n w1
          else (Raise e, answers, n, w1))"

text \<open>
  The loop: \<open>Some e\<close> is the exception that leaves it, \<open>None\<close> a session suspended in an
  await.
\<close>

fun active_loop ::
  "websocket \<Rightarrow> string outcome list \<Rightarrow> unit outcome list \<Rightarrow> (nat \<Rightarrow> string) \<Rightarrow> nat \<Rightarrow> world
     \<Rightarrow> exn option \<times> world" where
  "active_loop websocket [] answers clock n w = (None, w)"
| "active_loop websocket (r # receives) answers clock n w =
     (case iteration websocket r answers clock n w of
        (Continue, rest, n1, w1) \<Rightarrow> active_loop websocket receives rest clock n1 w1
      | (Raise e, rest, n1, w1) \<Rightarrow> (Some e, w1)
      | (Blocked, rest, n1, w1) \<Rightarrow> (None, w1))"

text \<open>The body of the outer \<^verbatim>\<open>try\<close>: the welcome, then the loop.\<close>

definition try_body ::
  "websocket \<Rightarrow> string outcome list \<Rightarrow> unit outcome list \<Rightarrow> (nat \<Rightarrow> string) \<Rightarrow> world
     \<Rightarrow> exn option \<times> world" where
  "try_body websocket receives answers clock w =
     (case send_json websocket (welcome_message (clock 0)) answers w of
        None \<Rightarrow> (None, w)
      | Some (Returns _, rest, w1) \<Rightarrow> active_loop websocket receives rest clock 1 w1
      | Some (Raises e, rest, w1) \<Rightarrow> (Some e, w1))"

datatype status = Returned | Propagated exn | Suspended

text \<open>
  \<^verbatim>\<open>websocket_endpoint\<close>. \<^verbatim>\<open>connect\<close> is awaited before the \<^verbatim>\<open>try\<close>: what it
  raises leaves the handler at once. Inside, the two \<^verbatim>\<open>except\<close> clauses only log, and
  the \<^verbatim>\<open>finally\<close> clause runs \<^verbatim>\<open>disconnect\<close> on every way out of the \<^verbatim>\<open>try\<close>.
\<close>

definition websocket_endpoint ::
  "world \<Rightarrow> websocket \<Rightarrow> unit outcome \<Rightarrow> string outcome list \<Rightarrow> unit outcome list
     \<Rightarrow> (nat \<Rightarrow> string) \<Rightarrow> status \<times> world" where
  "websocket_endpoint w websocket accepted receives answers clock =
     (case connect w websocket accepted of
        (Some e, w1) \<Rightarrow> (Propagated e, w1)
      | (None, w1) \<Rightarrow>
          (case try_body websocket receives answers clock w1 of
             (None, w2) \<Rightarrow> (Suspended, w2)
           | (Some e, w2) \<Rightarrow>
               (let w3 = disconnect w2 websocket in
                if e = WebSocketDisconnect then (Returned, w3)
                else if is_Exception e then (Returned, w3)
                else (Propagated e, w3))))"

text \<open>The events of a run: what it appended to the trace it started from.\<close>

definition new_events :: "world \<Rightarrow> world \<Rightarrow> event list" where
  "new_events w w' = drop (length (trace w)) (trace w')"

text \<open>
  The reply the message schema asks for: an echo of a received text, a ping on an idle
  timeout.
\<close>

fun expected_reply :: "string outcome \<Rightarrow> string \<Rightarrow> message" where
  "expected_reply (Returns m) timestamp =
     [(''type'', JStr ''echo''),
      (''message'', JStr (''Server received: '' @ m)),
      (''timestamp'', JStr timestamp)]"
| "expected_reply (Raises e) timestamp =
     [(''type'', JStr ''ping''), (''timestamp'', JStr timestamp)]"

text \<open>A receive that keeps the session in its loop: a text, or the idle timeout.\<close>

fun keeps_active :: "string outcome \<Rightarrow> bool" where
  "keeps_active (Returns m) = True"
| "keeps_active (Raises e) = (e = TimeoutError)"

text \<open>
  The events of the active phase when every send returns: for the k-th receive, counted
  from \<open>n\<close>, the receive and the send of its reply, stamped with the k-th clock reading.
\<close>

fun exchange :: "websocket \<Rightarrow> (nat \<Rightarrow> string) \<Rightarrow> nat \<Rightarrow> string outcome list \<Rightarrow> event list" where
  "exchange websocket clock n [] = []"
| "exchange websocket clock n (r # rs) =
     [ReceiveText websocket r, SendJson websocket (expected_reply r (clock n)) (Returns ())]
     @ exchange websocket clock (Suc n) rs"

text \<open>A sent message whose \<^verbatim>\<open>type\<close> is \<^verbatim>\<open>welcome\<close>.\<close>

definition is_welcome :: "websocket \<times> message \<Rightarrow> bool" where
  "is_welcome cm = (map_of (snd cm) ''type'' = Some (JStr ''welcome''))"

text \<open>
  Names for the parts of a broadcast's trace: the handles whose send fails, the events of
  the send pass, and the events of the batch removal.
\<close>

definition failed :: "world \<Rightarrow> (websocket \<Rightarrow> unit outcome) \<Rightarrow> websocket set" where
  "failed w sends = {c \<in> active_connections w. send_fails sends c}"

definition pass_events :: "world \<Rightarrow> message \<Rightarrow> (websocket \<Rightarrow> unit outcome) \<Rightarrow> event list" where
  "pass_events w m sends =
     map (\<lambda>c. SendJson c m (sends c)) (sorted_list_of_set (active_connections w))"

definition removal_events :: "websocket set \<Rightarrow> event list" where
  "removal_events D = (if D = {} then [] else [LockAcquire, SetSubtract D, LockRelease])"

section \<open>Coroutines under the scheduler\<close>

text \<open>
  asyncio runs one coroutine at a time and switches only at an await that suspends. The
  awaits that suspend are those on the transport; \<^verbatim>\<open>async with self._lock\<close> does not
  suspend while the lock is free. So a call of a coroutine of the manager is, for the
  scheduler, a task that is resumed with the answer to its pending await and runs to its
  next one. \<open>Sending m (c # rest) D\<close> is a broadcast of \<open>m\<close> suspended in the send on
  \<open>c\<close>, with the handles of \<open>rest\<close> still to come and \<open>D\<close> marked as failed; \<open>ToSend\<close> is a
  send of the session handler on its own socket.
\<close>

datatype task =
    ToConnect websocket
  | ToDisconnect websocket
  | ToBroadcast message
  | Sending message "websocket list" "websocket set"
  | ToSend websocket message
  | Finished "exn option"

text \<open>The end of \<^verbatim>\<open>broadcast\<close>: the batch removal, when a send failed.\<close>

definition finish_broadcast :: "websocket set \<Rightarrow> world \<Rightarrow> world" where
  "finish_broadcast disconnected w =
     (if disconnected \<noteq> {}
      then
        (let w4 = emit LockAcquire w;
             w5 = emit (SetSubtract disconnected)
                    (w4\<lparr>active_connections := active_connections w4 - disconnected\<rparr>);
             w6 = emit LockRelease w5
         in w6)
      else w)"

text \<open>The \<^verbatim>\<open>for\<close> loop between two sends: suspend in the next send, or leave the loop.\<close>

definition next_send :: "message \<Rightarrow> websocket list \<Rightarrow> websocket set \<Rightarrow> world \<Rightarrow> task \<times> world" where
  "next_send message connections disconnected w =
     (case connections of
        [] \<Rightarrow> (Finished None, finish_broadcast disconnected w)
      | c # rest \<Rightarrow> (Sending message (c # rest) disconnected, w))"

text \<open>
  One run of a task, from the answer to its pending await to its next await. A call that
  has not started yet takes no answer.
\<close>

fun resume :: "task \<Rightarrow> unit outcome \<Rightarrow> world \<Rightarrow> task \<times> world" where
  "resume (ToConnect websocket) answer w =
     (case connect w websocket answer of (r, w1) \<Rightarrow> (Finished r, w1))"
| "resume (ToDisconnect websocket) answer w = (Finished None, disconnect w websocket)"
| "resume (ToBroadcast message) answer w =
     (if active_connections w = {} then (Finished None, w)
      else
        (let w1 = emit LockAcquire w;
             connections = active_connections w1;
             w2 = emit LockRelease (emit SetCopy w1)
         in next_send message (sorted_list_of_set connections) {} w2))"
| "resume (Sending message [] disconnected) answer w =
     (Finished None, finish_broadcast disconnected w)"
| "resume (Sending message (connection # rest) disconnected) answer w =
     (let w1 = emit (SendJson connection message answer) w in
      case answer of
        Returns _ \<Rightarrow> next_send message rest disconnected w1
      | Raises e \<Rightarrow>
          if is_Exception e
          then next_send message rest (insert connection disconnected) w1
          else (Finished (Some e), w1))"
| "resume (ToSend websocket message) answer w =
     (Finished (case answer of Returns _ \<Rightarrow> None | Raises e \<Rightarrow> Some e),
      emit (SendJson websocket message answer) w)"
| "resume (Finished r) answer w = (Finished r, w)"

text \<open>
  The running system: the shared set, the tasks, and the events so far, each with the
  index of the task that made it. A scheduling step resumes one task with an answer.
\<close>

record system =
  registry :: "websocket set"
  tasks :: "task list"
  log :: "(nat \<times> event) list"

definition sched_step :: "system \<Rightarrow> nat \<times> unit outcome \<Rightarrow> system" where
  "sched_step s choice =
     (case choice of
        (i, answer) \<Rightarrow>
          if i < length (tasks s)
          then
            (case resume (tasks s ! i) answer \<lparr>active_connections = registry s, trace = []\<rparr> of
               (t, w) \<Rightarrow>
                 s\<lparr>registry := active_connections w,
                   tasks := (tasks s)[i := t],
                   log := log s @ map (Pair i) (trace w)\<rparr>)
          else s)"

fun schedule :: "system \<Rightarrow> (nat \<times> unit outcome) list \<Rightarrow> system" where
  "schedule s [] = s"
| "schedule s (choice # choices) = schedule (sched_step s choice) choices"

text \<open>
  The discipline of the lock, read off a log from the state of the lock (\<open>None\<close> is
  free, \<open>Some i\<close> is held by task \<open>i\<close>): the lock is acquired only when free and released
  only by its holder; an await on the transport happens only while the lock is free; any
  other event, which is a read or a change of the set, is made only by the holder of the
  lock; and at the end the lock is free.
\<close>

fun lock_discipline :: "nat option \<Rightarrow> (nat \<times> event) list \<Rightarrow> bool" where
  "lock_discipline holder [] = (holder = None)"
| "lock_discipline holder ((i, LockAcquire) # es) = (holder = None \<and> lock_discipline (Some i) es)"
| "lock_discipline holder ((i, LockRelease) # es) = (holder = Some i \<and> lock_discipline None es)"
| "lock_discipline holder ((i, e) # es) =
     ((if is_io e then holder = None else holder = Some i) \<and> lock_discipline holder es)"

text \<open>The operations on the set that the code performs under the lock.\<close>

fun is_set_op :: "event \<Rightarrow> bool" where
  "is_set_op (SetAdd _) = True"
| "is_set_op (SetDiscard _) = True"
| "is_set_op SetCopy = True"
| "is_set_op (SetSubtract _) = True"
| "is_set_op _ = False"

text \<open>
  A task driven alone: each send of a broadcast is answered by \<open>sends\<close>, and no other
  task runs in between.
\<close>

fun drive :: "nat \<Rightarrow> task \<Rightarrow> (websocket \<Rightarrow> unit outcome) \<Rightarrow> world \<Rightarrow> task \<times> world" where
  "drive 0 t sends w = (t, w)"
| "drive (Suc n) (Sending message (c # rest) disconnected) sends w =
     (case resume (Sending message (c # rest) disconnected) (sends c) w of
        (t, w1) \<Rightarrow> drive n t sends w1)"
| "drive (Suc n) (Finished r) sends w = (Finished r, w)"
| "drive (Suc n) t sends w =
     (case resume t (Returns ()) w of (t1, w1) \<Rightarrow> drive n t1 sends w1)"

section \<open>Facts about traces and the send pass\<close>

lemma trace_emit: "trace (emit e w) = trace w @ [e]"
  and active_emit: "active_connections (emit e w) = active_connections w"
  by (simp_all add: emit_def)

lemma send_pass_no_cancel:
  "\<forall>c \<in> set cs. \<not> send_cancelled sends c \<Longrightarrow>
   send_pass cs m sends D w =
     (None, D \<union> {c \<in> set cs. send_fails sends c},
      w\<lparr>trace := trace w @ map (\<lambda>c. SendJson c m (sends c)) cs\<rparr>)"
proof (induction cs arbitrary: D w)
  case Nil
  show ?case by simp
next
  case (Cons c cs)
  then have rest: "\<forall>c \<in> set cs. \<not> send_cancelled sends c" and here: "\<not> send_cancelled sends c"
    by simp_all
  show ?case
  proof (cases "sends c")
    case (Returns u)
    then show ?thesis
      using Cons.IH [OF rest] by (auto simp: send_fails_def emit_def)
  next
    case (Raises e)
    with here have "is_Exception e" by (simp add: send_cancelled_def)
    with Raises show ?thesis
      using Cons.IH [OF rest] by (auto simp: send_fails_def emit_def)
  qed
qed

lemma deliveries_append: "deliveries (xs @ ys) = deliveries xs @ deliveries ys"
  by (induction xs rule: deliveries.induct) simp_all

lemma send_attempts_append: "send_attempts (xs @ ys) = send_attempts xs @ send_attempts ys"
  by (induction xs rule: send_attempts.induct) simp_all

lemma deliveries_sends:
  "\<forall>c \<in> set cs. \<not> send_cancelled sends c \<Longrightarrow>
   deliveries (map (\<lambda>c. SendJson c m (sends c)) cs) =
     map (\<lambda>c. (c, m)) (filter (\<lambda>c. \<not> send_fails sends c) cs)"
proof (induction cs)
  case Nil
  show ?case by simp
next
  case (Cons c cs)
  then show ?case
    by (cases "sends c") (auto simp: send_fails_def send_cancelled_def)
qed

lemma send_attempts_sends:
  "send_attempts (map (\<lambda>c. SendJson c m (sends c)) cs) = map (\<lambda>c. (c, m)) cs"
  by (induction cs) simp_all

lemma broadcast_no_cancel:
  assumes fin: "finite (active_connections w)"
    and nc: "\<forall>c \<in> active_connections w. \<not> send_cancelled sends c"
    and ne: "active_connections w \<noteq> {}"
  shows "broadcast w m sends =
     (None, \<lparr>active_connections = active_connections w - failed w sends,
             trace = trace w @ [LockAcquire, SetCopy, LockRelease] @ pass_events w m sends
                       @ removal_events (failed w sends)\<rparr>)"
proof -
  let ?cs = "sorted_list_of_set (active_connections w)"
  let ?w2 = "emit LockRelease (emit SetCopy (emit LockAcquire w))"
  have set_cs: "set ?cs = active_connections w" using fin by simp
  have nc': "\<forall>c \<in> set ?cs. \<not> send_cancelled sends c" using nc set_cs by simp
  have D: "{} \<union> {c \<in> set ?cs. send_fails sends c} = failed w sends"
    unfolding set_cs failed_def by simp
  have pass: "send_pass ?cs m sends {} ?w2 =
      (None, failed w sends, ?w2\<lparr>trace := trace ?w2 @ pass_events w m sends\<rparr>)"
    unfolding send_pass_no_cancel [OF nc'] D pass_events_def ..
  show ?thesis
  proof (cases "failed w sends = {}")
    case True
    then show ?thesis
      using ne unfolding broadcast_def Let_def active_emit pass
      by (simp add: removal_events_def emit_def)
  next
    case False
    then show ?thesis
      using ne unfolding broadcast_def Let_def active_emit pass
      by (simp add: removal_events_def emit_def)
  qed
qed


lemma new_events_append: "trace w' = trace w @ es \<Longrightarrow> new_events w w' = es"
  by (simp add: new_events_def)

lemma new_events_same: "new_events w w = []"
  by (simp add: new_events_def)

lemma length_filter_sorted:
  assumes "finite A"
  shows "length (filter P (sorted_list_of_set A)) = card A - card {c \<in> A. \<not> P c}"
proof -
  have "length (filter P (sorted_list_of_set A)) = card {c \<in> A. P c}"
    using assms by (simp add: distinct_length_filter Collect_conj_eq Int_commute Collect_mem_eq)
  also have "{c \<in> A. P c} = A - {c \<in> A. \<not> P c}" by auto
  also have "card (A - {c \<in> A. \<not> P c}) = card A - card {c \<in> A. \<not> P c}"
    using assms by (intro card_Diff_subset) auto
  finally show ?thesis .
qed

section \<open>Broadcast to an empty registry\<close>

text \<open>
  C9. Broadcasting any payload when the set of live handles is empty attempts no send,
  leaves the set (and the whole state) unchanged, and returns without an exception.
\<close>

theorem broadcast_empty_registry:
  "active_connections w = {} \<Longrightarrow>
     broadcast w message sends = (None, w) \<and>
     send_attempts (trace (snd (broadcast w message sends))) = send_attempts (trace w) \<and>
     active_connections (snd (broadcast w message sends)) = {}"
  by (simp add: broadcast_def)

theorem broadcast_empty_registry_witness:
  "active_connections init_world = {} \<and>
   broadcast init_world [(''type'', JStr ''notification'')] (\<lambda>c. Raises RuntimeError)
     = (None, init_world) \<and>
   send_attempts (trace (snd (broadcast init_world [(''type'', JStr ''notification'')]
     (\<lambda>c. Raises RuntimeError)))) = []"
  using broadcast_empty_registry
    [of init_world "[(''type'', JStr ''notification'')]" "\<lambda>c. Raises RuntimeError"]
  by (simp add: init_world_def)

section \<open>Broadcast with failing sends\<close>

text \<open>
  C1. A broadcast over a registry of N live handles, in which every send either returns
  or fails with an exception and exactly M of them fail, returns normally and makes
  exactly N - M deliveries, one to each handle whose send did not fail. Its events are the
  snapshot under the lock, then the N sends of the pass, then (when a send failed) one
  batch removal under the lock: no handle leaves the set before the pass is over. After
  the call the set is the old one without the M failing handles, so exactly M handles
  were removed, and a handle whose own send did not fail is still a member and got its
  delivery whatever happened to the others.
\<close>

theorem broadcast_fan_out:
  fixes w :: world and message :: message and sends :: "websocket \<Rightarrow> unit outcome"
  assumes fin: "finite (active_connections w)"
    and nc: "\<forall>c \<in> active_connections w. \<not> send_cancelled sends c"
  defines "A \<equiv> active_connections w"
    and "F \<equiv> {c \<in> active_connections w. send_fails sends c}"
    and "w' \<equiv> snd (broadcast w message sends)"
  shows "fst (broadcast w message sends) = None \<and>
         length (deliveries (new_events w w')) = card A - card F \<and>
         deliveries (new_events w w') =
           map (\<lambda>c. (c, message)) (filter (\<lambda>c. \<not> send_fails sends c) (sorted_list_of_set A)) \<and>
         distinct (deliveries (new_events w w')) \<and>
         new_events w w' =
           (if A = {} then []
            else [LockAcquire, SetCopy, LockRelease]
                 @ map (\<lambda>c. SendJson c message (sends c)) (sorted_list_of_set A)
                 @ (if F = {} then [] else [LockAcquire, SetSubtract F, LockRelease])) \<and>
         active_connections w' = A - F \<and>
         card (A - active_connections w') = card F \<and>
         (\<forall>c \<in> A. \<not> send_fails sends c \<longrightarrow>
            c \<in> active_connections w' \<and> (c, message) \<in> set (deliveries (new_events w w')))"
proof -
  have F_eq: "F = failed w sends" by (simp add: F_def failed_def)
  have F_sub: "F \<subseteq> A" by (auto simp: F_def A_def)
  have finA: "finite A" using fin by (simp add: A_def)
  have ev: "new_events w w' =
           (if A = {} then []
            else [LockAcquire, SetCopy, LockRelease]
                 @ map (\<lambda>c. SendJson c message (sends c)) (sorted_list_of_set A)
                 @ (if F = {} then [] else [LockAcquire, SetSubtract F, LockRelease]))"
    and act: "active_connections w' = A - F"
    and ret: "fst (broadcast w message sends) = None"
  proof -
    show "fst (broadcast w message sends) = None"
      using broadcast_no_cancel [OF fin nc, of message]
      by (cases "active_connections w = {}") (simp_all add: broadcast_def)
    show "active_connections w' = A - F"
    proof (cases "active_connections w = {}")
      case True
      then show ?thesis by (simp add: w'_def broadcast_def A_def F_def)
    next
      case False
      then show ?thesis
        using broadcast_no_cancel [OF fin nc False, of message]
        by (simp add: w'_def A_def F_eq)
    qed
    show "new_events w w' =
           (if A = {} then []
            else [LockAcquire, SetCopy, LockRelease]
                 @ map (\<lambda>c. SendJson c message (sends c)) (sorted_list_of_set A)
                 @ (if F = {} then [] else [LockAcquire, SetSubtract F, LockRelease]))"
    proof (cases "active_connections w = {}")
      case True
      then show ?thesis by (simp add: w'_def broadcast_def A_def new_events_same)
    next
      case False
      have "trace w' = trace w @ [LockAcquire, SetCopy, LockRelease] @ pass_events w message sends
                       @ removal_events (failed w sends)"
        using broadcast_no_cancel [OF fin nc False, of message] by (simp add: w'_def)
      from new_events_append [OF this] False show ?thesis
        by (simp add: A_def F_eq pass_events_def removal_events_def)
    qed
  qed
  have nc': "\<forall>c \<in> set (sorted_list_of_set A). \<not> send_cancelled sends c"
    using nc finA by (simp add: A_def)
  have del: "deliveries (new_events w w') =
           map (\<lambda>c. (c, message)) (filter (\<lambda>c. \<not> send_fails sends c) (sorted_list_of_set A))"
  proof (cases "A = {}")
    case True
    then show ?thesis by (simp add: ev)
  next
    case False
    then show ?thesis
      by (simp add: ev deliveries_append deliveries_sends [OF nc'])
  qed
  have len: "length (deliveries (new_events w w')) = card A - card F"
    unfolding del using length_filter_sorted [OF finA, of "\<lambda>c. \<not> send_fails sends c"]
    by (simp add: F_def A_def)
  have dist: "distinct (deliveries (new_events w w'))"
    unfolding del by (simp add: distinct_map inj_on_def)
  have removed: "card (A - active_connections w') = card F"
  proof -
    have "A - (A - F) = F" using F_sub by auto
    then show ?thesis by (simp add: act)
  qed
  have indep: "\<forall>c \<in> A. \<not> send_fails sends c \<longrightarrow>
            c \<in> active_connections w' \<and> (c, message) \<in> set (deliveries (new_events w w'))"
    unfolding del act using finA by (auto simp: F_def)
  from ret len del dist ev act removed indep show ?thesis by blast
qed


theorem broadcast_fan_out_witness:
  "finite (active_connections \<lparr>active_connections = {1, 2, 3}, trace = []\<rparr>) \<and>
   \<not> send_cancelled (\<lambda>c. if c = 2 then Raises RuntimeError else Returns ()) 1 \<and>
   card {c \<in> {1, 2, 3 :: nat}. send_fails (\<lambda>c. if c = 2 then Raises RuntimeError else Returns ()) c} = 1 \<and>
   length (deliveries (new_events \<lparr>active_connections = {1, 2, 3}, trace = []\<rparr>
     (snd (broadcast \<lparr>active_connections = {1, 2, 3}, trace = []\<rparr> [(''type'', JStr ''notification'')]
       (\<lambda>c. if c = 2 then Raises RuntimeError else Returns ()))))) = 2 \<and>
   active_connections (snd (broadcast \<lparr>active_connections = {1, 2, 3}, trace = []\<rparr>
     [(''type'', JStr ''notification'')]
     (\<lambda>c. if c = 2 then Raises RuntimeError else Returns ()))) = {1, 3}"
proof -
  let ?w = "\<lparr>active_connections = {1, 2, 3}, trace = []\<rparr>"
  let ?sends = "\<lambda>c::nat. if c = 2 then Raises RuntimeError else Returns ()"
  have fin: "finite (active_connections ?w)" by simp
  have nc: "\<forall>c \<in> active_connections ?w. \<not> send_cancelled ?sends c"
    by (simp add: send_cancelled_def is_Exception_def)
  have F: "{c \<in> active_connections ?w. send_fails ?sends c} = {2}"
    by (auto simp: send_fails_def is_Exception_def split: if_splits)
  note inst = broadcast_fan_out [OF fin nc, of "[(''type'', JStr ''notification'')]", unfolded F]
  have len: "length (deliveries (new_events ?w
      (snd (broadcast ?w [(''type'', JStr ''notification'')] ?sends)))) = 2"
    using conjunct1 [OF conjunct2 [OF inst]] by simp
  have act: "active_connections (snd (broadcast ?w [(''type'', JStr ''notification'')] ?sends))
      = {1, 3}"
    using conjunct1 [OF conjunct2 [OF conjunct2 [OF conjunct2 [OF conjunct2 [OF conjunct2 [OF inst]]]]]]
    by (simp add: insert_Diff_if)
  have c1: "\<not> send_cancelled ?sends 1" by (simp add: send_cancelled_def)
  have cardF: "card {c \<in> {1, 2, 3 :: nat}. send_fails ?sends c} = 1"
    using F by simp
  show ?thesis
    by (intro conjI) (rule fin c1 cardF len act)+
qed

section \<open>The count after a sequence of calls\<close>



















section \<open>The messages of a session\<close>

lemma send_json_Some:
  "send_json ws m (a # rest) w = Some (a, rest, emit (SendJson ws m a) w)"
  and send_json_None: "send_json ws m [] w = None"
  by (simp_all add: send_json_def)

lemma iteration_happy:
  assumes "keeps_active r"
  shows "iteration ws r (Returns () # rest) clock n w =
     (Continue, rest, Suc n,
      w\<lparr>trace := trace w @ [ReceiveText ws r, SendJson ws (expected_reply r (clock n)) (Returns ())]\<rparr>)"
proof (cases r)
  case (Returns m)
  then show ?thesis
    by (simp add: iteration_def Let_def send_json_Some emit_def echo_message_def)
next
  case (Raises e)
  with assms have "e = TimeoutError" by simp
  with Raises show ?thesis
    by (simp add: iteration_def on_timeout_def Let_def send_json_Some emit_def ping_message_def)
qed

lemma active_loop_happy:
  "\<forall>r \<in> set receives. keeps_active r \<Longrightarrow> \<forall>a \<in> set answers. a = Returns () \<Longrightarrow>
   length receives \<le> length answers \<Longrightarrow>
   active_loop ws receives answers clock n w =
     (None, w\<lparr>trace := trace w @ exchange ws clock n receives\<rparr>)"
proof (induction receives arbitrary: answers n w)
  case Nil
  show ?case by simp
next
  case (Cons r rs)
  from Cons.prems(3) obtain a rest where ans: "answers = a # rest"
    by (cases answers) auto
  with Cons.prems(2) have a: "a = Returns ()" and rest: "\<forall>a \<in> set rest. a = Returns ()"
    by simp_all
  from Cons.prems(1) have r: "keeps_active r" and rs: "\<forall>r \<in> set rs. keeps_active r"
    by simp_all
  from Cons.prems(3) ans have len: "length rs \<le> length rest" by simp
  show ?case
    unfolding ans a
    by (simp add: iteration_happy [OF r] Cons.IH [OF rs rest len])
qed




lemma send_attempts_exchange:
  "send_attempts (exchange ws clock n rs) =
     map (\<lambda>(k, r). (ws, expected_reply r (clock k))) (enumerate n rs)"
  by (induction rs arbitrary: n) simp_all

lemma deliveries_exchange:
  "deliveries (exchange ws clock n rs) =
     map (\<lambda>(k, r). (ws, expected_reply r (clock k))) (enumerate n rs)"
  by (induction rs arbitrary: n) simp_all

lemma no_welcome_in_exchange:
  "filter is_welcome (send_attempts (exchange ws clock n rs)) = []"
proof (induction rs arbitrary: n)
  case Nil
  show ?case by simp
next
  case (Cons r rs)
  then show ?case by (cases r) (simp_all add: is_welcome_def)
qed

lemma connect_ok:
  "connect w ws (Returns ()) =
     (None, \<lparr>active_connections = insert ws (active_connections w),
             trace = trace w @ [Accept ws (Returns ()), LockAcquire, SetAdd ws, LockRelease]\<rparr>)"
  by (simp add: connect_def Let_def emit_def)

text \<open>
  C6. In a session whose handshake succeeds and whose sends all return, fed any sequence of
  received texts and idle timeouts: the first message sent is the one welcome, of shape
  \<^verbatim>\<open>{type: "welcome", message, timestamp}\<close>; then, receive by receive and in order,
  exactly one reply is sent, \<^verbatim>\<open>{type: "echo", message: "Server received: " + m, timestamp}\<close>
  for a text \<open>m\<close> and \<^verbatim>\<open>{type: "ping", timestamp}\<close> for an idle timeout; every one of them is
  delivered; and the session is still active afterwards: the handler is suspended in its
  next receive and the handle is still registered.
\<close>

theorem session_messages:
  fixes w :: world and ws :: websocket and clock :: "nat \<Rightarrow> string"
  assumes rs: "\<forall>r \<in> set receives. keeps_active r"
    and ans: "\<forall>a \<in> set answers. a = Returns ()"
    and len: "length receives < length answers"
  defines "w' \<equiv> snd (websocket_endpoint w ws (Returns ()) receives answers clock)"
    and "welcome \<equiv> [(''type'', JStr ''welcome''),
                     (''message'', JStr ''Connected to WebSocket server''),
                     (''timestamp'', JStr (clock 0))]"
  shows "fst (websocket_endpoint w ws (Returns ()) receives answers clock) = Suspended \<and>
     new_events w w' =
       [Accept ws (Returns ()), LockAcquire, SetAdd ws, LockRelease, SendJson ws welcome (Returns ())]
       @ exchange ws clock 1 receives \<and>
     send_attempts (new_events w w') =
       (ws, welcome) # map (\<lambda>(k, r). (ws, expected_reply r (clock k))) (enumerate 1 receives) \<and>
     deliveries (new_events w w') = send_attempts (new_events w w') \<and>
     length (filter is_welcome (send_attempts (new_events w w'))) = 1 \<and>
     ws \<in> active_connections w'"
proof -
  from len obtain a rest where split: "answers = a # rest" by (cases answers) auto
  with ans have a: "a = Returns ()" and rest: "\<forall>a \<in> set rest. a = Returns ()" by simp_all
  from len split have len': "length receives \<le> length rest" by simp
  let ?w1 = "\<lparr>active_connections = insert ws (active_connections w),
             trace = trace w @ [Accept ws (Returns ()), LockAcquire, SetAdd ws, LockRelease]\<rparr>"
  let ?w2 = "emit (SendJson ws (welcome_message (clock 0)) (Returns ())) ?w1"
  have body: "try_body ws receives answers clock ?w1 =
      (None, ?w2\<lparr>trace := trace ?w2 @ exchange ws clock 1 receives\<rparr>)"
    unfolding split a
    by (simp add: try_body_def send_json_Some active_loop_happy [OF rs rest len'])
  have run: "websocket_endpoint w ws (Returns ()) receives answers clock =
      (Suspended, ?w2\<lparr>trace := trace ?w2 @ exchange ws clock 1 receives\<rparr>)"
    by (simp add: websocket_endpoint_def connect_ok body)
  have st: "fst (websocket_endpoint w ws (Returns ()) receives answers clock) = Suspended"
    by (simp add: run)
  have tr: "trace w' = trace w @
       [Accept ws (Returns ()), LockAcquire, SetAdd ws, LockRelease, SendJson ws welcome (Returns ())]
       @ exchange ws clock 1 receives"
    by (simp add: w'_def run emit_def welcome_def welcome_message_def)
  have ev: "new_events w w' =
       [Accept ws (Returns ()), LockAcquire, SetAdd ws, LockRelease, SendJson ws welcome (Returns ())]
       @ exchange ws clock 1 receives"
    by (rule new_events_append [OF tr])
  have att: "send_attempts (new_events w w') =
       (ws, welcome) # map (\<lambda>(k, r). (ws, expected_reply r (clock k))) (enumerate 1 receives)"
    by (simp add: ev send_attempts_exchange)
  have del: "deliveries (new_events w w') = send_attempts (new_events w w')"
    by (simp add: ev send_attempts_exchange deliveries_exchange)
  have one: "length (filter is_welcome (send_attempts (new_events w w'))) = 1"
    by (simp add: ev no_welcome_in_exchange) (simp add: is_welcome_def welcome_def)
  have mem: "ws \<in> active_connections w'"
    by (simp add: w'_def run emit_def)
  from st ev att del one mem show ?thesis by blast
qed

theorem session_messages_witness:
  "keeps_active (Returns ''hi'') \<and> keeps_active (Raises TimeoutError) \<and>
   length [Returns ''hi'', Raises TimeoutError] < length [Returns (), Returns (), Returns ()] \<and>
   fst (websocket_endpoint init_world 7 (Returns ()) [Returns ''hi'', Raises TimeoutError]
          [Returns (), Returns (), Returns ()] (\<lambda>n. ''2024-01-01T00:00:00'')) = Suspended \<and>
   send_attempts (new_events init_world
     (snd (websocket_endpoint init_world 7 (Returns ()) [Returns ''hi'', Raises TimeoutError]
          [Returns (), Returns (), Returns ()] (\<lambda>n. ''2024-01-01T00:00:00'')))) =
     [(7, [(''type'', JStr ''welcome''), (''message'', JStr ''Connected to WebSocket server''),
           (''timestamp'', JStr ''2024-01-01T00:00:00'')]),
      (7, [(''type'', JStr ''echo''), (''message'', JStr ''Server received: hi''),
           (''timestamp'', JStr ''2024-01-01T00:00:00'')]),
      (7, [(''type'', JStr ''ping''), (''timestamp'', JStr ''2024-01-01T00:00:00'')])]"
proof -
  let ?rs = "[Returns ''hi'', Raises TimeoutError]"
  let ?as = "[Returns (), Returns (), Returns ()]"
  have rs: "\<forall>r \<in> set ?rs. keeps_active r" by simp
  have ans: "\<forall>a \<in> set ?as. a = Returns ()" by simp
  have len: "length ?rs < length ?as" by simp
  note inst = session_messages [OF rs ans len, of init_world 7 "\<lambda>n. ''2024-01-01T00:00:00''"]
  have st: "fst (websocket_endpoint init_world 7 (Returns ()) ?rs ?as
      (\<lambda>n. ''2024-01-01T00:00:00'')) = Suspended"
    by (rule conjunct1 [OF inst])
  have att: "send_attempts (new_events init_world
     (snd (websocket_endpoint init_world 7 (Returns ()) ?rs ?as (\<lambda>n. ''2024-01-01T00:00:00'')))) =
     [(7, [(''type'', JStr ''welcome''), (''message'', JStr ''Connected to WebSocket server''),
           (''timestamp'', JStr ''2024-01-01T00:00:00'')]),
      (7, [(''type'', JStr ''echo''), (''message'', JStr ''Server received: hi''),
           (''timestamp'', JStr ''2024-01-01T00:00:00'')]),
      (7, [(''type'', JStr ''ping''), (''timestamp'', JStr ''2024-01-01T00:00:00'')])]"
    using conjunct1 [OF conjunct2 [OF conjunct2 [OF inst]]] by (simp add: enumerate_eq_zip)
  have k1: "keeps_active (Returns ''hi'')" and k2: "keeps_active (Raises TimeoutError)" by simp_all
  show ?thesis
    by (intro conjI) (rule k1 k2 len st att)+
qed

section \<open>Cleanup at the end of a session\<close>
















section \<open>A handshake that fails\<close>

text \<open>
  C10. When the handshake raises, \<^verbatim>\<open>connect\<close> raises the same exception and the
  handler lets it pass; the only event is the failed handshake itself, so the handle was
  never added, the cleanup removal never ran, and the set of live handles is what it was.
\<close>

theorem failed_handshake:
  "connect w ws (Raises e) = (Some e, emit (Accept ws (Raises e)) w) \<and>
   websocket_endpoint w ws (Raises e) receives answers clock =
     (Propagated e, emit (Accept ws (Raises e)) w) \<and>
   active_connections (snd (websocket_endpoint w ws (Raises e) receives answers clock)) =
     active_connections w \<and>
   new_events w (snd (websocket_endpoint w ws (Raises e) receives answers clock)) =
     [Accept ws (Raises e)]"
  by (simp add: websocket_endpoint_def connect_def Let_def emit_def new_events_def)

theorem failed_handshake_witness:
  "websocket_endpoint init_world 7 (Raises RuntimeError) [Returns ''hi''] [Returns ()] (\<lambda>n. ''t'')
     = (Propagated RuntimeError, \<lparr>active_connections = {}, trace = [Accept 7 (Raises RuntimeError)]\<rparr>)"
  using failed_handshake [of init_world 7 RuntimeError "[Returns ''hi'']" "[Returns ()]" "\<lambda>n. ''t''"]
  by (simp add: init_world_def emit_def)

section \<open>Waiting for the connections to drain\<close>

lemma wait_loop_exits:
  "\<exists>j. k \<le> j \<and> j < k + fuel \<and> timeout \<le> now_at env j - start_time env \<Longrightarrow>
   \<exists>r. wait_loop fuel env timeout k = Some r"
proof (induction fuel arbitrary: k)
  case 0
  then show ?case by auto
next
  case (Suc fuel)
  then obtain j where j: "k \<le> j" "j < k + Suc fuel" "timeout \<le> now_at env j - start_time env"
    by blast
  show ?case
  proof (cases "\<not> timedelta_ok (timeout - (now_at env k - start_time env)) \<or>
      connection_count (world_at env k) = 0 \<or> timeout \<le> now_at env k - start_time env")
    case True
    then show ?thesis by (auto simp: Let_def)
  next
    case False
    with j have "Suc k \<le> j" by (cases "j = k") auto
    with j have "\<exists>j. Suc k \<le> j \<and> j < Suc k + fuel \<and> timeout \<le> now_at env j - start_time env"
      by auto
    from Suc.IH [OF this] obtain r where "wait_loop fuel env timeout (Suc k) = Some r" ..
    with False show ?thesis
      by (cases "sleep_at env k") (auto simp: Let_def)
  qed
qed

lemma wait_loop_result:
  "wait_loop fuel env timeout k = Some (p, k') \<Longrightarrow>
   k \<le> k' \<and>
   (\<forall>j. k \<le> j \<and> j < k' \<longrightarrow>
      connection_count (world_at env j) \<noteq> 0 \<and> now_at env j - start_time env < timeout \<and>
      sleep_at env j = Returns ()) \<and>
   (case p of
      Graceful \<Rightarrow> connection_count (world_at env k') = 0
    | Forced \<Rightarrow> connection_count (world_at env k') \<noteq> 0 \<and>
                timeout \<le> now_at env k' - start_time env
    | Interrupted e \<Rightarrow> connection_count (world_at env k') \<noteq> 0 \<and>
                now_at env k' - start_time env < timeout \<and> sleep_at env k' = Raises e
    | Overflowed \<Rightarrow> \<not> timedelta_ok (timeout - (now_at env k' - start_time env))
    | NotInitiated \<Rightarrow> False)"
proof (induction fuel arbitrary: k)
  case 0
  then show ?case by simp
next
  case (Suc fuel)
  show ?case
  proof (cases "timedelta_ok (timeout - (now_at env k - start_time env))")
    case False
    with Suc.prems show ?thesis by (auto simp: Let_def)
  next
    case inrange: True
    show ?thesis
    proof (cases "connection_count (world_at env k) = 0")
      case True
      with inrange Suc.prems show ?thesis by (auto simp: Let_def)
    next
      case nonzero: False
      show ?thesis
      proof (cases "timeout \<le> now_at env k - start_time env")
        case True
        with inrange nonzero Suc.prems show ?thesis by (auto simp: Let_def)
      next
        case early: False
        show ?thesis
        proof (cases "sleep_at env k")
          case (Raises e)
          with inrange nonzero early Suc.prems show ?thesis by (auto simp: Let_def)
        next
          case (Returns u)
          with inrange nonzero early Suc.prems
          have "wait_loop fuel env timeout (Suc k) = Some (p, k')"
            by (simp add: Let_def)
          from Suc.IH [OF this] have ih: "Suc k \<le> k'"
            "\<forall>j. Suc k \<le> j \<and> j < k' \<longrightarrow>
              connection_count (world_at env j) \<noteq> 0 \<and> now_at env j - start_time env < timeout \<and>
              sleep_at env j = Returns ()"
            "(case p of
                Graceful \<Rightarrow> connection_count (world_at env k') = 0
              | Forced \<Rightarrow> connection_count (world_at env k') \<noteq> 0 \<and>
                  timeout \<le> now_at env k' - start_time env
              | Interrupted e \<Rightarrow> connection_count (world_at env k') \<noteq> 0 \<and>
                  now_at env k' - start_time env < timeout \<and> sleep_at env k' = Raises e
              | Overflowed \<Rightarrow> \<not> timedelta_ok (timeout - (now_at env k' - start_time env))
              | NotInitiated \<Rightarrow> False)"
            by simp_all
          have "\<forall>j. k \<le> j \<and> j < k' \<longrightarrow>
              connection_count (world_at env j) \<noteq> 0 \<and> now_at env j - start_time env < timeout \<and>
              sleep_at env j = Returns ()"
          proof (intro allI impI)
            fix j assume "k \<le> j \<and> j < k'"
            then consider "j = k" | "Suc k \<le> j \<and> j < k'" by linarith
            then show "connection_count (world_at env j) \<noteq> 0 \<and>
                now_at env j - start_time env < timeout \<and> sleep_at env j = Returns ()"
            proof cases
              case 1
              with nonzero early Returns show ?thesis by (cases u) simp
            next
              case 2
              with ih(2) show ?thesis by blast
            qed
          qed
          with ih show ?thesis by simp
        qed
      qed
    qed
  qed
qed

lemma timedelta_ok_small:
  "- 86400000000 \<le> us \<Longrightarrow> us < 86400000000 \<Longrightarrow> timedelta_ok us"
proof -
  assume lo: "- 86400000000 \<le> us" and hi: "us < 86400000000"
  have "(- 86400000000) div 86400000000 \<le> us div (86400000000 :: int)"
    using lo by (intro zdiv_mono1) simp_all
  moreover have "us div (86400000000 :: int) \<le> 86399999999 div 86400000000"
    using hi by (intro zdiv_mono1) simp_all
  ultimately show ?thesis by (simp add: timedelta_ok_def)
qed

lemma clock_advances:
  "\<forall>k. now_at env k + seconds 5 \<le> now_at env (Suc k) \<Longrightarrow>
   now_at env 0 + seconds 5 * int k \<le> now_at env k"
proof (induction k)
  case 0
  show ?case by simp
next
  case (Suc k)
  then have step: "now_at env k + seconds 5 \<le> now_at env (Suc k)" by blast
  from Suc have "now_at env 0 + seconds 5 * int k \<le> now_at env k" by blast
  with step show ?case by (simp add: algebra_simps)
qed


lemma timeout_reached:
  assumes clock: "\<forall>k. now_at env k + seconds 5 \<le> now_at env (Suc k)"
    and start: "start_time env \<le> now_at env 0"
  shows "timeout \<le> now_at env (nat (timeout div seconds 5) + 1) - start_time env"
proof -
  let ?K = "nat (timeout div seconds 5) + 1"
  have "timeout < seconds 5 * (timeout div seconds 5 + 1)"
    using pos_mod_bound [of "seconds 5" timeout] mult_div_mod_eq [of "seconds 5" timeout]
    by (simp add: seconds_def algebra_simps)
  also have "\<dots> \<le> seconds 5 * int ?K" by (simp add: seconds_def)
  also have "\<dots> \<le> now_at env ?K - start_time env"
    using clock_advances [OF clock, of ?K] start by simp
  finally show ?thesis by simp
qed

text \<open>
  C4. Once shutdown is initiated, with a timeout and times remaining that are
  representable as \<^verbatim>\<open>timedelta\<close> (so that no \<^verbatim>\<open>OverflowError\<close> is raised), and
  with a clock on which every five-second sleep takes at least five seconds,
  \<^verbatim>\<open>wait_for_shutdown\<close> returns: fuel for one pass more than
  the timeout holds sleeps is enough, so the wait is bounded by the timeout (30 minutes by
  default). It leaves the loop at the first pass \<open>k\<close> that sees no connection (the
  graceful path) or whose clock reading has reached the timeout (the forced path): at
  every earlier pass there were connections and the timeout had not elapsed, so the
  forced path is never taken before the timeout; and the forced path is taken only with
  connections left, so a pass at which both hold is graceful. On both paths
  \<^verbatim>\<open>shutdown_event\<close> is set. The only other way out is a sleep that raises, which is
  the cancellation of the waiting task.
\<close>

theorem wait_terminates:
  assumes init: "shutdown_initiated sm"
    and timeout: "timedelta_ok (minutes (timeout_minutes sm))"
    and remaining: "\<forall>k \<le> nat (minutes (timeout_minutes sm) div seconds 5) + 1.
        timedelta_ok (minutes (timeout_minutes sm) - (now_at env k - start_time env))"
    and clock: "\<forall>k. now_at env k + seconds 5 \<le> now_at env (Suc k)"
    and start: "start_time env \<le> now_at env 0"
    and fuel: "nat (minutes (timeout_minutes sm) div seconds 5) + 2 \<le> fuel"
  shows "\<exists>r k. wait_for_shutdown fuel sm env = Some r \<and> polls r = Suc k \<and>
      k \<le> nat (minutes (timeout_minutes sm) div seconds 5) + 1 \<and>
      (\<forall>j<k. connection_count (world_at env j) \<noteq> 0 \<and>
             now_at env j - start_time env < minutes (timeout_minutes sm) \<and>
             sleep_at env j = Returns ()) \<and>
      (path r = Graceful \<and> connection_count (world_at env k) = 0 \<and>
         shutdown_event (manager_after r)
       \<or> path r = Forced \<and> connection_count (world_at env k) \<noteq> 0 \<and>
         minutes (timeout_minutes sm) \<le> now_at env k - start_time env \<and>
         shutdown_event (manager_after r)
       \<or> (\<exists>e. path r = Interrupted e \<and> sleep_at env k = Raises e))"
proof -
  let ?T = "minutes (timeout_minutes sm)"
  let ?K = "nat (?T div seconds 5) + 1"
  have late: "?T \<le> now_at env ?K - start_time env"
    by (rule timeout_reached [OF clock start])
  have "\<exists>j. 0 \<le> j \<and> j < 0 + fuel \<and> ?T \<le> now_at env j - start_time env"
    using late fuel by (intro exI [of _ ?K]) simp
  from wait_loop_exits [OF this] obtain p k where loop: "wait_loop fuel env ?T 0 = Some (p, k)"
    by (metis surj_pair)
  note res = wait_loop_result [OF loop]
  have before: "\<forall>j<k. connection_count (world_at env j) \<noteq> 0 \<and>
             now_at env j - start_time env < ?T \<and> sleep_at env j = Returns ()"
    using res by simp
  have bound: "k \<le> ?K"
  proof (rule ccontr)
    assume "\<not> k \<le> ?K"
    then have "?K < k" by simp
    with before have "now_at env ?K - start_time env < ?T" by blast
    with late show False by simp
  qed
  show ?thesis
  proof (cases p)
    case NotInitiated
    with res show ?thesis by simp
  next
    case Overflowed
    with res have "\<not> timedelta_ok (?T - (now_at env k - start_time env))" by simp
    with remaining bound show ?thesis by blast
  next
    case Graceful
    let ?r = "\<lparr>path = Graceful, polls = Suc k, sleeps = k,
                manager_after = sm\<lparr>shutdown_event := True\<rparr>\<rparr>"
    have "wait_for_shutdown fuel sm env = Some ?r"
      using init timeout loop Graceful by (simp add: wait_for_shutdown_def)
    moreover have "connection_count (world_at env k) = 0" using res Graceful by simp
    ultimately show ?thesis using before bound
      by (intro exI [of _ ?r] exI [of _ k]) simp
  next
    case Forced
    let ?r = "\<lparr>path = Forced, polls = Suc k, sleeps = k,
                manager_after = sm\<lparr>shutdown_event := True\<rparr>\<rparr>"
    have "wait_for_shutdown fuel sm env = Some ?r"
      using init timeout loop Forced by (simp add: wait_for_shutdown_def)
    moreover have "connection_count (world_at env k) \<noteq> 0 \<and> ?T \<le> now_at env k - start_time env"
      using res Forced by simp
    ultimately show ?thesis using before bound
      by (intro exI [of _ ?r] exI [of _ k]) simp
  next
    case (Interrupted e)
    let ?r = "\<lparr>path = Interrupted e, polls = Suc k, sleeps = Suc k, manager_after = sm\<rparr>"
    have "wait_for_shutdown fuel sm env = Some ?r"
      using init timeout loop Interrupted by (simp add: wait_for_shutdown_def)
    moreover have "sleep_at env k = Raises e" using res Interrupted by simp
    ultimately show ?thesis using before bound
      by (intro exI [of _ ?r] exI [of _ k]) simp
  qed
qed

theorem wait_terminates_witness:
  "shutdown_initiated (initiate_shutdown shutdown_manager) \<and>
   timeout_minutes (initiate_shutdown shutdown_manager) = 30 \<and>
   timedelta_ok (minutes (timeout_minutes (initiate_shutdown shutdown_manager))) \<and>
   timedelta_ok (minutes (timeout_minutes (initiate_shutdown shutdown_manager))
                 - (seconds 5 * 361 - 0)) \<and>
   (\<exists>r. wait_for_shutdown 400 (initiate_shutdown shutdown_manager)
          \<lparr>start_time = 0, now_at = (\<lambda>k. seconds 5 * int k),
           world_at = (\<lambda>k. \<lparr>active_connections = {1}, trace = []\<rparr>),
           sleep_at = (\<lambda>k. Returns ())\<rparr> = Some r \<and>
        path r = Forced \<and> polls r = 361) \<and>
   (\<exists>r. wait_for_shutdown 400 (initiate_shutdown shutdown_manager)
          \<lparr>start_time = 0, now_at = (\<lambda>k. seconds 5 * int k),
           world_at = (\<lambda>k. \<lparr>active_connections = (if k = 0 then {1, 2, 3} else {}), trace = []\<rparr>),
           sleep_at = (\<lambda>k. Returns ())\<rparr> = Some r \<and>
        path r = Graceful \<and> polls r = 2)"
proof -
  let ?sm = "initiate_shutdown shutdown_manager"
  let ?stuck = "\<lparr>start_time = 0, now_at = (\<lambda>k. seconds 5 * int k),
           world_at = (\<lambda>k. \<lparr>active_connections = {1}, trace = []\<rparr>),
           sleep_at = (\<lambda>k. Returns ())\<rparr>"
  let ?drain = "\<lparr>start_time = 0, now_at = (\<lambda>k. seconds 5 * int k),
           world_at = (\<lambda>k. \<lparr>active_connections = (if k = 0 then {1, 2, 3} else {}), trace = []\<rparr>),
           sleep_at = (\<lambda>k. Returns ())\<rparr>"
  have init: "shutdown_initiated ?sm" by (simp add: initiate_shutdown_def)
  have mins: "timeout_minutes ?sm = 30"
    by (simp add: initiate_shutdown_def shutdown_manager_def new_shutdown_manager_def)
  have T: "minutes (timeout_minutes ?sm) = 1800000000" by (simp add: mins minutes_def)
  have fuel: "nat (minutes (timeout_minutes ?sm) div seconds 5) + 2 \<le> 400"
    by (simp add: T seconds_def)
  have tmo: "timedelta_ok (minutes (timeout_minutes ?sm))"
    by (simp add: T timedelta_ok_def)
  have K: "nat (minutes (timeout_minutes ?sm) div seconds 5) + 1 = 361"
    by (simp add: T seconds_def)
  have rem: "\<And>k. k \<le> 361 \<Longrightarrow> timedelta_ok (1800000000 - (seconds 5 * int k - 0))"
  proof (rule timedelta_ok_small)
    fix k :: nat
    assume "k \<le> 361"
    then have "int k \<le> 361" by simp
    then show "- 86400000000 \<le> 1800000000 - (seconds 5 * int k - 0)"
      by (simp add: seconds_def)
    show "1800000000 - (seconds 5 * int k - 0) < 86400000000"
      by (simp add: seconds_def)
  qed
  have last: "timedelta_ok (minutes (timeout_minutes ?sm) - (seconds 5 * 361 - 0))"
    using rem [of 361] by (simp add: T)
  have rem1: "\<forall>k \<le> nat (minutes (timeout_minutes ?sm) div seconds 5) + 1.
      timedelta_ok (minutes (timeout_minutes ?sm) - (now_at ?stuck k - start_time ?stuck))"
    unfolding K using rem by (simp add: T)
  have rem2: "\<forall>k \<le> nat (minutes (timeout_minutes ?sm) div seconds 5) + 1.
      timedelta_ok (minutes (timeout_minutes ?sm) - (now_at ?drain k - start_time ?drain))"
    unfolding K using rem by (simp add: T)
  have clock1: "\<forall>k. now_at ?stuck k + seconds 5 \<le> now_at ?stuck (Suc k)"
    by (simp add: seconds_def)
  have start1: "start_time ?stuck \<le> now_at ?stuck 0" by simp
  have clock2: "\<forall>k. now_at ?drain k + seconds 5 \<le> now_at ?drain (Suc k)"
    by (simp add: seconds_def)
  have start2: "start_time ?drain \<le> now_at ?drain 0" by simp
  have forced: "\<exists>r. wait_for_shutdown 400 ?sm ?stuck = Some r \<and> path r = Forced \<and> polls r = 361"
  proof -
    from wait_terminates [OF init tmo rem1 clock1 start1 fuel] obtain r k where
      r: "wait_for_shutdown 400 ?sm ?stuck = Some r" and p: "polls r = Suc k"
      and before: "\<forall>j<k. now_at ?stuck j - start_time ?stuck < minutes (timeout_minutes ?sm)"
      and how: "path r = Graceful \<and> connection_count (world_at ?stuck k) = 0
         \<or> path r = Forced \<and> minutes (timeout_minutes ?sm) \<le> now_at ?stuck k - start_time ?stuck
         \<or> (\<exists>e. path r = Interrupted e \<and> sleep_at ?stuck k = Raises e)"
      by blast
    from how have f: "path r = Forced" and late: "1800000000 \<le> seconds 5 * int k"
      by (auto simp: connection_count_def T)
    from late have "360 \<le> k" by (simp add: seconds_def)
    moreover have "k \<le> 360"
    proof (rule ccontr)
      assume "\<not> k \<le> 360"
      then have "360 < k" by simp
      with before have "seconds 5 * int 360 < 1800000000" by (auto simp: T)
      then show False by (simp add: seconds_def)
    qed
    ultimately have "k = 360" by simp
    with r f p show ?thesis by simp
  qed
  have graceful: "\<exists>r. wait_for_shutdown 400 ?sm ?drain = Some r \<and> path r = Graceful \<and> polls r = 2"
  proof -
    from wait_terminates [OF init tmo rem2 clock2 start2 fuel] obtain r k where
      r: "wait_for_shutdown 400 ?sm ?drain = Some r" and p: "polls r = Suc k"
      and before: "\<forall>j<k. connection_count (world_at ?drain j) \<noteq> 0"
      and how: "path r = Graceful \<and> connection_count (world_at ?drain k) = 0
         \<or> path r = Forced \<and> connection_count (world_at ?drain k) \<noteq> 0 \<and>
            minutes (timeout_minutes ?sm) \<le> now_at ?drain k - start_time ?drain
         \<or> (\<exists>e. path r = Interrupted e \<and> sleep_at ?drain k = Raises e)"
      by blast
    have k1: "k \<le> 1"
    proof (rule ccontr)
      assume "\<not> k \<le> 1"
      then have "1 < k" by simp
      with before have "connection_count (world_at ?drain 1) \<noteq> 0" by blast
      then show False by (simp add: connection_count_def)
    qed
    have k0: "k \<noteq> 0"
    proof
      assume "k = 0"
      with how show False by (auto simp: connection_count_def T)
    qed
    from k0 k1 have k: "k = 1" by simp
    with how have "path r = Graceful" by (auto simp: connection_count_def)
    with r p k show ?thesis by simp
  qed
  from init mins tmo last forced graceful show ?thesis by blast
qed

section \<open>Waiting before shutdown was initiated\<close>

text \<open>
  C8. When shutdown was never initiated, \<^verbatim>\<open>wait_for_shutdown\<close> returns at once,
  whatever the registry and the clock would show and with no fuel at all: it reads the
  count of the registry zero times and sleeps zero times, and leaves the manager as it was.
\<close>

theorem wait_before_initiate:
  "\<not> shutdown_initiated sm \<Longrightarrow>
   wait_for_shutdown fuel sm env =
     Some \<lparr>path = NotInitiated, polls = 0, sleeps = 0, manager_after = sm\<rparr>"
  by (simp add: wait_for_shutdown_def)

theorem wait_before_initiate_witness:
  "\<not> shutdown_initiated shutdown_manager \<and>
   wait_for_shutdown 0 shutdown_manager
     \<lparr>start_time = 0, now_at = (\<lambda>k. 0), world_at = (\<lambda>k. \<lparr>active_connections = {1}, trace = []\<rparr>),
      sleep_at = (\<lambda>k. Returns ())\<rparr> =
     Some \<lparr>path = NotInitiated, polls = 0, sleeps = 0,
           manager_after = \<lparr>timeout_minutes = 30, shutdown_initiated = False,
                             shutdown_event = False\<rparr>\<rparr>"
proof -
  have a: "\<not> shutdown_initiated shutdown_manager"
    by (simp add: shutdown_manager_def new_shutdown_manager_def)
  show ?thesis
    using wait_before_initiate [OF a, of 0
        "\<lparr>start_time = 0, now_at = (\<lambda>k. 0),
          world_at = (\<lambda>k. \<lparr>active_connections = {1}, trace = []\<rparr>),
          sleep_at = (\<lambda>k. Returns ())\<rparr>"] a
    by (simp add: shutdown_manager_def new_shutdown_manager_def)
qed

section \<open>The payloads of the notification broadcaster\<close>

lemma send_pass_raises:
  "fst (send_pass cs m sends D w) = Some e \<Longrightarrow> \<exists>c. sends c = Raises e \<and> \<not> is_Exception e"
proof (induction cs arbitrary: D w)
  case Nil
  then show ?case by simp
next
  case (Cons c cs)
  show ?case
  proof (cases "sends c")
    case (Returns u)
    with Cons.prems have "fst (send_pass cs m sends D (emit (SendJson c m (sends c)) w)) = Some e"
      by (simp add: Let_def)
    then show ?thesis by (rule Cons.IH)
  next
    case (Raises x)
    show ?thesis
    proof (cases "is_Exception x")
      case True
      with Raises Cons.prems
      have "fst (send_pass cs m sends (insert c D) (emit (SendJson c m (sends c)) w)) = Some e"
        by (simp add: Let_def)
      then show ?thesis by (rule Cons.IH)
    next
      case False
      with Raises Cons.prems have "x = e" by (simp add: Let_def)
      with Raises False show ?thesis by blast
    qed
  qed
qed

lemma broadcast_raises:
  assumes "fst (broadcast w m sends) = Some e"
  shows "\<exists>c. sends c = Raises e \<and> \<not> is_Exception e"
proof -
  let ?w2 = "emit LockRelease (emit SetCopy (emit LockAcquire w))"
  let ?cs = "sorted_list_of_set (active_connections w)"
  obtain r D w3 where sp: "send_pass ?cs m sends {} ?w2 = (r, D, w3)"
    by (metis prod_cases3)
  from assms have ne: "active_connections w \<noteq> {}"
    by (auto simp: broadcast_def)
  from assms ne have "r = Some e"
    unfolding broadcast_def Let_def active_emit sp
    by (cases r) (auto split: if_splits)
  with sp have "fst (send_pass ?cs m sends {} ?w2) = Some e" by simp
  then show ?thesis by (rule send_pass_raises)
qed

lemma broadcast_not_cancelled:
  assumes "tick_completes t"
  shows "fst (broadcast w m (send_results t)) = None"
proof (cases "fst (broadcast w m (send_results t))")
  case None
  then show ?thesis .
next
  case (Some e)
  from broadcast_raises [OF this] obtain c where "send_results t c = Raises e" "e = CancelledError"
    by (auto simp: is_Exception_def)
  with assms show ?thesis by (auto simp: tick_completes_def)
qed

lemma loop_step:
  assumes "tick_completes t"
  shows "broadcaster_loop c w (t # ts) =
     built (notification_message (Suc c) (now t) (connection_count (run_ops w (meanwhile t))))
       (broadcaster_loop (Suc c)
          (snd (broadcast (run_ops w (meanwhile t))
             (notification_message (Suc c) (now t) (connection_count (run_ops w (meanwhile t))))
             (send_results t))) ts)"
proof -
  let ?w1 = "run_ops w (meanwhile t)"
  let ?m = "notification_message (Suc c) (now t) (connection_count ?w1)"
  obtain w2 where "broadcast ?w1 ?m (send_results t) = (None, w2)"
    using broadcast_not_cancelled [OF assms, of ?w1 ?m] by (metis prod.collapse)
  then show ?thesis
    using assms by (simp add: tick_completes_def Let_def)
qed

lemma built_simps:
  "payloads (built m r) = m # payloads r"
  "world_after (built m r) = world_after r"
  "stopped (built m r) = stopped r"
  "counter_after (built m r) = counter_after r"
  by (simp_all add: built_def)

lemma loop_complete:
  "list_all tick_completes ticks \<Longrightarrow>
   length (payloads (broadcaster_loop c w ticks)) = length ticks \<and>
   stopped (broadcaster_loop c w ticks) = Sleeping \<and>
   counter_after (broadcaster_loop c w ticks) = c + length ticks"
proof (induction ticks arbitrary: c w)
  case Nil
  show ?case by simp
next
  case (Cons t ts)
  then have t: "tick_completes t" and ts: "list_all tick_completes ts" by simp_all
  show ?case
    unfolding loop_step [OF t] built_simps using Cons.IH [OF ts] by simp
qed

lemma loop_payloads:
  "list_all tick_completes ticks \<Longrightarrow> i < length ticks \<Longrightarrow>
   payloads (broadcaster_loop c w ticks) ! i =
     notification_message (c + Suc i) (now (ticks ! i))
       (connection_count
          (run_ops (world_after (broadcaster_loop c w (take i ticks))) (meanwhile (ticks ! i))))"
proof (induction ticks arbitrary: c w i)
  case Nil
  then show ?case by simp
next
  case (Cons t ts)
  then have t: "tick_completes t" and ts: "list_all tick_completes ts" by simp_all
  show ?case
  proof (cases i)
    case 0
    then show ?thesis unfolding loop_step [OF t] built_simps by simp
  next
    case (Suc j)
    with Cons.prems have j: "j < length ts" by simp
    have "take i (t # ts) = t # take j ts" by (simp add: Suc)
    then show ?thesis
      unfolding Suc loop_step [OF t] built_simps
      using Cons.IH [OF ts j]
      by (simp del: broadcaster_loop.simps add: loop_step [OF t] built_simps)
  qed
qed

lemma digit_char_inj: "a < 10 \<Longrightarrow> b < 10 \<Longrightarrow> digit_char a = digit_char b \<Longrightarrow> a = b"
proof -
  assume a: "a < 10" and b: "b < 10" and eq: "digit_char a = digit_char b"
  from eq have "of_char (char_of (48 + a) :: char) = (of_char (char_of (48 + b) :: char) :: nat)"
    by (simp add: digit_char_def)
  with a b show "a = b" by simp
qed

lemma str_nat_length: "10 \<le> n \<Longrightarrow> 2 \<le> length (str_nat n)"
proof -
  assume "10 \<le> n"
  then have "str_nat n = str_nat (n div 10) @ [digit_char (n mod 10)]"
    by (simp add: str_nat.simps [of n])
  moreover have "1 \<le> length (str_nat (n div 10))"
    by (subst str_nat.simps) simp
  ultimately show ?thesis by simp
qed

lemma str_nat_inj: "str_nat m = str_nat n \<Longrightarrow> m = n"
proof (induction m arbitrary: n rule: str_nat.induct)
  case (1 m)
  show ?case
  proof (cases "m < 10")
    case small: True
    show ?thesis
    proof (cases "n < 10")
      case True
      with small "1.prems" show ?thesis
        by (simp add: str_nat.simps [of m] str_nat.simps [of n] digit_char_inj)
    next
      case False
      then have "2 \<le> length (str_nat n)" by (simp add: str_nat_length)
      moreover have "length (str_nat m) = 1" using small by (simp add: str_nat.simps [of m])
      ultimately show ?thesis using "1.prems" by simp
    qed
  next
    case big: False
    show ?thesis
    proof (cases "n < 10")
      case True
      from big have "2 \<le> length (str_nat m)" by (simp add: str_nat_length)
      moreover have "length (str_nat n) = 1" using True by (simp add: str_nat.simps [of n])
      ultimately show ?thesis using "1.prems" by simp
    next
      case False
      from big have m: "str_nat m = str_nat (m div 10) @ [digit_char (m mod 10)]"
        by (simp add: str_nat.simps [of m])
      from False have n: "str_nat n = str_nat (n div 10) @ [digit_char (n mod 10)]"
        by (simp add: str_nat.simps [of n])
      from "1.prems" m n have front: "str_nat (m div 10) = str_nat (n div 10)"
        and last: "digit_char (m mod 10) = digit_char (n mod 10)"
        by simp_all
      from "1.IH" [OF big front] have "m div 10 = n div 10" .
      moreover from last have "m mod 10 = n mod 10" by (intro digit_char_inj) simp_all
      ultimately show ?thesis by (metis div_mult_mod_eq)
    qed
  qed
qed

lemma message_field:
  "map_of (notification_message c ts n) ''message'' =
     Some (JStr (''Periodic notification #'' @ str_nat c))"
  by (simp add: notification_message_def)

lemma loop_counters:
  "counter_after (broadcaster_loop c w ticks) = c + length (payloads (broadcaster_loop c w ticks)) \<and>
   (\<forall>i < length (payloads (broadcaster_loop c w ticks)).
      map_of (payloads (broadcaster_loop c w ticks) ! i) ''message'' =
        Some (JStr (''Periodic notification #'' @ str_nat (c + Suc i))))"
proof (induction ticks arbitrary: c w)
  case Nil
  show ?case by simp
next
  case (Cons t ts)
  let ?w1 = "run_ops w (meanwhile t)"
  let ?m = "notification_message (Suc c) (now t) (connection_count ?w1)"
  show ?case
  proof (cases "shutdown_seen t")
    case True
    then show ?thesis by simp
  next
    case flag: False
    show ?thesis
    proof (cases "sleep_result t")
      case (Raises e)
      with flag Cons.IH [of c ?w1] show ?thesis by (simp add: Let_def)
    next
      case (Returns u)
      obtain r w2 where b: "broadcast ?w1 ?m (send_results t) = (r, w2)" by (metis surj_pair)
      have cont: "counter_after (built ?m (broadcaster_loop (Suc c) w2 ts)) =
            c + length (payloads (built ?m (broadcaster_loop (Suc c) w2 ts))) \<and>
          (\<forall>i < length (payloads (built ?m (broadcaster_loop (Suc c) w2 ts))).
             map_of (payloads (built ?m (broadcaster_loop (Suc c) w2 ts)) ! i) ''message'' =
               Some (JStr (''Periodic notification #'' @ str_nat (c + Suc i))))"
      proof (intro conjI allI impI)
        show "counter_after (built ?m (broadcaster_loop (Suc c) w2 ts)) =
            c + length (payloads (built ?m (broadcaster_loop (Suc c) w2 ts)))"
          using Cons.IH [of "Suc c" w2] by (simp add: built_simps)
      next
        fix i assume i: "i < length (payloads (built ?m (broadcaster_loop (Suc c) w2 ts)))"
        show "map_of (payloads (built ?m (broadcaster_loop (Suc c) w2 ts)) ! i) ''message'' =
               Some (JStr (''Periodic notification #'' @ str_nat (c + Suc i)))"
        proof (cases i)
          case 0
          then show ?thesis by (simp add: built_simps message_field)
        next
          case (Suc j)
          with i have "j < length (payloads (broadcaster_loop (Suc c) w2 ts))"
            by (simp add: built_simps)
          with Cons.IH [of "Suc c" w2] Suc show ?thesis by (simp add: built_simps)
        qed
      qed
      show ?thesis
      proof (cases r)
        case None
        with flag Returns b cont show ?thesis by (simp add: Let_def)
      next
        case (Some e)
        show ?thesis
        proof (cases "e = CancelledError")
          case True
          with flag Returns b Some show ?thesis by (simp add: Let_def message_field)
        next
          case False
          with flag Returns b Some cont show ?thesis by (simp add: Let_def)
        qed
      qed
    qed
  qed
qed

lemma two_elements: "length xs = 2 \<Longrightarrow> xs = [xs ! 0, xs ! 1]"
  by (cases xs; cases "tl xs") auto

text \<open>
  C7. Over the life of the broadcaster, whatever the ticks bring, the payloads it builds
  carry the sequence numbers 1, 2, 3, ... in the order they were built: each payload's
  number is the previous one's plus one, different numbers are rendered differently, and
  the counter ends at the number of payloads built. When every tick runs to its end, each
  tick builds one payload of shape
  \<^verbatim>\<open>{type: "notification", message, timestamp, active_connections}\<close>, whose
  \<^verbatim>\<open>active_connections\<close> is the count of the registry as that tick found it when it
  built the payload, and whose timestamp is that tick's clock reading.
\<close>

theorem broadcaster_payloads:
  fixes w :: world and ticks :: "tick list"
  defines "r \<equiv> notification_broadcaster w ticks"
  shows "(\<forall>i < length (payloads r).
            map_of (payloads r ! i) ''message'' =
              Some (JStr (''Periodic notification #'' @ str_nat (Suc i)))) \<and>
         (\<forall>i j. str_nat i = str_nat j \<longrightarrow> i = j) \<and>
         counter_after r = length (payloads r) \<and>
         (list_all tick_completes ticks \<longrightarrow>
            length (payloads r) = length ticks \<and>
            (\<forall>i < length ticks.
               payloads r ! i =
                 [(''type'', JStr ''notification''),
                  (''message'', JStr (''Periodic notification #'' @ str_nat (Suc i))),
                  (''timestamp'', JStr (now (ticks ! i))),
                  (''active_connections'',
                     JInt (int (connection_count (registry_at_build w ticks i))))]))"
proof -
  have counters: "\<forall>i < length (payloads r).
            map_of (payloads r ! i) ''message'' =
              Some (JStr (''Periodic notification #'' @ str_nat (Suc i)))"
    and after: "counter_after r = length (payloads r)"
    using loop_counters [of 0 w ticks] by (simp_all add: r_def notification_broadcaster_def)
  have inj: "\<forall>i j. str_nat i = str_nat j \<longrightarrow> i = j"
    using str_nat_inj by blast
  have full: "list_all tick_completes ticks \<longrightarrow>
            length (payloads r) = length ticks \<and>
            (\<forall>i < length ticks.
               payloads r ! i =
                 [(''type'', JStr ''notification''),
                  (''message'', JStr (''Periodic notification #'' @ str_nat (Suc i))),
                  (''timestamp'', JStr (now (ticks ! i))),
                  (''active_connections'',
                     JInt (int (connection_count (registry_at_build w ticks i))))])"
  proof
    assume all: "list_all tick_completes ticks"
    have len: "length (payloads r) = length ticks"
      using loop_complete [OF all, of 0 w] by (simp add: r_def notification_broadcaster_def)
    have "\<forall>i < length ticks.
               payloads r ! i =
                 [(''type'', JStr ''notification''),
                  (''message'', JStr (''Periodic notification #'' @ str_nat (Suc i))),
                  (''timestamp'', JStr (now (ticks ! i))),
                  (''active_connections'',
                     JInt (int (connection_count (registry_at_build w ticks i))))]"
    proof (intro allI impI)
      fix i assume "i < length ticks"
      from loop_payloads [OF all this, of 0 w]
      show "payloads r ! i =
                 [(''type'', JStr ''notification''),
                  (''message'', JStr (''Periodic notification #'' @ str_nat (Suc i))),
                  (''timestamp'', JStr (now (ticks ! i))),
                  (''active_connections'',
                     JInt (int (connection_count (registry_at_build w ticks i))))]"
        by (simp add: r_def notification_broadcaster_def registry_at_build_def
            notification_message_def)
    qed
    with len show "length (payloads r) = length ticks \<and>
            (\<forall>i < length ticks.
               payloads r ! i =
                 [(''type'', JStr ''notification''),
                  (''message'', JStr (''Periodic notification #'' @ str_nat (Suc i))),
                  (''timestamp'', JStr (now (ticks ! i))),
                  (''active_connections'',
                     JInt (int (connection_count (registry_at_build w ticks i))))])"
      by blast
  qed
  from counters inj after full show ?thesis by blast
qed

theorem broadcaster_payloads_witness:
  "list_all tick_completes
     [\<lparr>shutdown_seen = False, sleep_result = Returns (),
       meanwhile = [Connect 1 (Returns ()), Connect 2 (Returns ())],
       now = ''2024-01-01T00:00:10'', send_results = (\<lambda>c. Returns ())\<rparr>,
      \<lparr>shutdown_seen = False, sleep_result = Returns (),
       meanwhile = [Disconnect 2],
       now = ''2024-01-01T00:00:20'', send_results = (\<lambda>c. Returns ())\<rparr>] \<and>
   payloads (notification_broadcaster init_world
     [\<lparr>shutdown_seen = False, sleep_result = Returns (),
       meanwhile = [Connect 1 (Returns ()), Connect 2 (Returns ())],
       now = ''2024-01-01T00:00:10'', send_results = (\<lambda>c. Returns ())\<rparr>,
      \<lparr>shutdown_seen = False, sleep_result = Returns (),
       meanwhile = [Disconnect 2],
       now = ''2024-01-01T00:00:20'', send_results = (\<lambda>c. Returns ())\<rparr>]) =
     [[(''type'', JStr ''notification''), (''message'', JStr ''Periodic notification #1''),
       (''timestamp'', JStr ''2024-01-01T00:00:10''), (''active_connections'', JInt 2)],
      [(''type'', JStr ''notification''), (''message'', JStr ''Periodic notification #2''),
       (''timestamp'', JStr ''2024-01-01T00:00:20''), (''active_connections'', JInt 1)]]"
proof -
  let ?t1 = "\<lparr>shutdown_seen = False, sleep_result = Returns (),
       meanwhile = [Connect 1 (Returns ()), Connect 2 (Returns ())],
       now = ''2024-01-01T00:00:10'', send_results = (\<lambda>c. Returns ())\<rparr>"
  let ?t2 = "\<lparr>shutdown_seen = False, sleep_result = Returns (),
       meanwhile = [Disconnect 2],
       now = ''2024-01-01T00:00:20'', send_results = (\<lambda>c. Returns ())\<rparr>"
  let ?r = "notification_broadcaster init_world [?t1, ?t2]"
  have all: "list_all tick_completes [?t1, ?t2]" by (simp add: tick_completes_def)
  note inst = broadcaster_payloads [of init_world "[?t1, ?t2]"]
  from inst all have len: "length (payloads ?r) = 2"
    and nth: "\<forall>i < length [?t1, ?t2]. payloads ?r ! i =
                 [(''type'', JStr ''notification''),
                  (''message'', JStr (''Periodic notification #'' @ str_nat (Suc i))),
                  (''timestamp'', JStr (now ([?t1, ?t2] ! i))),
                  (''active_connections'',
                     JInt (int (connection_count (registry_at_build init_world [?t1, ?t2] i))))]"
    by simp_all
  have s1: "str_nat (Suc 0) = ''1''" and s2: "str_nat (Suc (Suc 0)) = ''2''"
    by code_simp+
  have c0: "connection_count (registry_at_build init_world [?t1, ?t2] 0) = 2"
    by (simp add: registry_at_build_def notification_broadcaster_def init_world_def
        connect_def Let_def emit_def connection_count_def)
  have w1: "active_connections (world_after (notification_broadcaster init_world [?t1])) = {1, 2}"
    by (simp add: notification_broadcaster_def loop_step tick_completes_def built_simps
        init_world_def connect_def Let_def emit_def broadcast_def insert_commute)
  have c1: "connection_count (registry_at_build init_world [?t1, ?t2] 1) = 1"
    using w1 by (simp add: registry_at_build_def disconnect_def Let_def emit_def
        connection_count_def insert_Diff_if)
  have p0: "payloads ?r ! 0 =
      [(''type'', JStr ''notification''), (''message'', JStr ''Periodic notification #1''),
       (''timestamp'', JStr ''2024-01-01T00:00:10''), (''active_connections'', JInt 2)]"
    using nth c0 s1 by simp
  have p1: "payloads ?r ! 1 =
      [(''type'', JStr ''notification''), (''message'', JStr ''Periodic notification #2''),
       (''timestamp'', JStr ''2024-01-01T00:00:20''), (''active_connections'', JInt 1)]"
    using nth c1 s2 by simp
  have "payloads ?r = [payloads ?r ! 0, payloads ?r ! 1]"
    by (rule two_elements [OF len])
  with p0 p1 all show ?thesis by simp
qed

section \<open>The lock and the sends\<close>

lemma lock_discipline_append:
  "lock_discipline holder xs \<Longrightarrow> lock_discipline None ys \<Longrightarrow> lock_discipline holder (xs @ ys)"
  by (induction holder xs rule: lock_discipline.induct) auto

lemma finish_broadcast_segment:
  "trace w = es \<Longrightarrow> lock_discipline None (map (Pair i) es) \<Longrightarrow>
   lock_discipline None (map (Pair i) (trace (finish_broadcast D w)))"
  by (auto simp: finish_broadcast_def Let_def emit_def intro: lock_discipline_append)

lemma next_send_segment:
  "lock_discipline None (map (Pair i) (trace w)) \<Longrightarrow>
   lock_discipline None (map (Pair i) (trace (snd (next_send m cs D w))))"
  by (cases cs) (auto simp: next_send_def intro: finish_broadcast_segment)

lemma resume_segment:
  assumes "trace w = []"
  shows "lock_discipline None (map (Pair i) (trace (snd (resume t answer w))))"
proof (cases t)
  case (ToConnect ws)
  then show ?thesis using assms
    by (cases answer) (simp_all add: connect_def Let_def emit_def)
next
  case (ToDisconnect ws)
  then show ?thesis using assms by (simp add: disconnect_def Let_def emit_def)
next
  case (ToBroadcast m)
  show ?thesis
  proof (cases "active_connections w = {}")
    case True
    with ToBroadcast assms show ?thesis by simp
  next
    case False
    let ?w2 = "emit LockRelease (emit SetCopy (emit LockAcquire w))"
    have "lock_discipline None (map (Pair i) (trace ?w2))"
      using assms by (simp add: emit_def)
    from next_send_segment [OF this] show ?thesis
      using ToBroadcast False by (simp add: Let_def active_emit)
  qed
next
  case (Sending m cs D)
  show ?thesis
  proof (cases cs)
    case Nil
    with Sending assms show ?thesis
      by (auto intro: finish_broadcast_segment)
  next
    case (Cons c rest)
    let ?w1 = "emit (SendJson c m answer) w"
    have seg: "lock_discipline None (map (Pair i) (trace ?w1))"
      using assms by (simp add: emit_def)
    show ?thesis
    proof (cases answer)
      case (Returns u)
      with Sending Cons next_send_segment [OF seg] show ?thesis by (simp add: Let_def)
    next
      case (Raises e)
      with Sending Cons next_send_segment [OF seg] seg show ?thesis by (simp add: Let_def)
    qed
  qed
next
  case (ToSend ws m)
  then show ?thesis using assms by (simp add: emit_def)
next
  case (Finished r)
  then show ?thesis using assms by simp
qed

lemma sched_step_log:
  "lock_discipline None (log s) \<Longrightarrow> lock_discipline None (log (sched_step s choice))"
proof (cases choice)
  case (Pair i answer)
  assume ok: "lock_discipline None (log s)"
  show ?thesis
  proof (cases "i < length (tasks s)")
    case False
    with Pair ok show ?thesis by (simp add: sched_step_def)
  next
    case True
    let ?w = "\<lparr>active_connections = registry s, trace = []\<rparr>"
    obtain t w' where r: "resume (tasks s ! i) answer ?w = (t, w')" by (metis surj_pair)
    have "lock_discipline None (map (Pair i) (trace (snd (resume (tasks s ! i) answer ?w))))"
      by (rule resume_segment) simp
    with r have "lock_discipline None (map (Pair i) (trace w'))" by simp
    with ok have "lock_discipline None (log s @ map (Pair i) (trace w'))"
      by (rule lock_discipline_append)
    with Pair True r show ?thesis by (simp add: sched_step_def)
  qed
qed

lemma schedule_log:
  "lock_discipline None (log s) \<Longrightarrow> lock_discipline None (log (schedule s choices))"
  by (induction choices arbitrary: s) (simp_all add: sched_step_log)

lemma drive_finished: "drive n (Finished r) sends w = (Finished r, w)"
  by (cases n) simp_all

lemma drive_pass:
  "length cs \<le> n \<Longrightarrow>
   (case next_send m cs D w of (t, w0) \<Rightarrow> drive n t sends w0) =
     (case send_pass cs m sends D w of
        (None, D', w') \<Rightarrow> (Finished None, finish_broadcast D' w')
      | (Some e, D', w') \<Rightarrow> (Finished (Some e), w'))"
proof (induction cs arbitrary: n D w)
  case Nil
  show ?case by (simp add: next_send_def drive_finished)
next
  case (Cons c rest)
  then obtain k where n: "n = Suc k" and k: "length rest \<le> k" by (cases n) auto
  let ?w1 = "emit (SendJson c m (sends c)) w"
  show ?case
  proof (cases "sends c")
    case (Returns u)
    with Cons.IH [OF k, of D ?w1] show ?thesis
      by (simp add: n next_send_def [of m "c # rest"] Let_def)
  next
    case (Raises e)
    show ?thesis
    proof (cases "is_Exception e")
      case True
      with Raises Cons.IH [OF k, of "insert c D" ?w1] show ?thesis
        by (simp add: n next_send_def [of m "c # rest"] Let_def)
    next
      case False
      with Raises show ?thesis
        by (simp add: n next_send_def [of m "c # rest"] Let_def drive_finished)
    qed
  qed
qed

lemma broadcast_task_refines:
  assumes "card (active_connections w) \<le> n"
  shows "drive (Suc n) (ToBroadcast m) sends w =
     (Finished (fst (broadcast w m sends)), snd (broadcast w m sends))"
proof (cases "active_connections w = {}")
  case True
  then show ?thesis by (simp add: broadcast_def drive_finished)
next
  case False
  let ?cs = "sorted_list_of_set (active_connections w)"
  let ?w2 = "emit LockRelease (emit SetCopy (emit LockAcquire w))"
  have "length ?cs \<le> n"
  proof (cases "finite (active_connections w)")
    case True
    with assms show ?thesis by simp
  next
    case False
    then show ?thesis by simp
  qed
  from drive_pass [OF this, where m = m and D = "{}" and w = ?w2 and sends = sends]
  have pass: "(case next_send m ?cs {} ?w2 of (t, w0) \<Rightarrow> drive n t sends w0) =
     (case send_pass ?cs m sends {} ?w2 of
        (None, D', w') \<Rightarrow> (Finished None, finish_broadcast D' w')
      | (Some e, D', w') \<Rightarrow> (Finished (Some e), w'))" .
  obtain r D w3 where sp: "send_pass ?cs m sends {} ?w2 = (r, D, w3)" by (metis prod_cases3)
  show ?thesis
    using False pass
    by (cases r) (simp_all add: broadcast_def Let_def active_emit sp finish_broadcast_def)
qed

lemma io_discipline:
  "list_all is_io es \<Longrightarrow> lock_discipline None (map (Pair i) es)"
proof (induction es)
  case Nil
  show ?case by simp
next
  case (Cons e es)
  then show ?case by (cases e) simp_all
qed

lemma send_pass_io:
  "\<exists>es. trace (snd (snd (send_pass cs m sends D w))) = trace w @ es \<and> list_all is_io es"
proof (induction cs arbitrary: D w)
  case Nil
  show ?case by simp
next
  case (Cons c cs)
  let ?w1 = "emit (SendJson c m (sends c)) w"
  from Cons.IH [of D ?w1] Cons.IH [of "insert c D" ?w1]
  show ?case
    by (cases "sends c") (auto simp: Let_def trace_emit)
qed

lemma connect_discipline:
  "lock_discipline None (map (Pair i) (new_events w (snd (connect w ws answer))))"
  by (cases answer) (simp_all add: connect_def Let_def emit_def new_events_def)

lemma disconnect_discipline:
  "lock_discipline None (map (Pair i) (new_events w (disconnect w ws)))"
  by (simp add: disconnect_def Let_def emit_def new_events_def)

lemma broadcast_discipline:
  "lock_discipline None (map (Pair i) (new_events w (snd (broadcast w m sends))))"
proof (cases "active_connections w = {}")
  case True
  then show ?thesis by (simp add: broadcast_def new_events_def)
next
  case False
  let ?cs = "sorted_list_of_set (active_connections w)"
  let ?w2 = "emit LockRelease (emit SetCopy (emit LockAcquire w))"
  obtain r D w3 where sp: "send_pass ?cs m sends {} ?w2 = (r, D, w3)" by (metis prod_cases3)
  from send_pass_io [of ?cs m sends "{}" ?w2] sp obtain es where
    tr: "trace w3 = trace w @ [LockAcquire, SetCopy, LockRelease] @ es" and io: "list_all is_io es"
    by (auto simp: emit_def)
  have head: "lock_discipline None (map (Pair i) [LockAcquire, SetCopy, LockRelease])" by simp
  have mid: "lock_discipline None (map (Pair i) ([LockAcquire, SetCopy, LockRelease] @ es))"
    unfolding map_append by (rule lock_discipline_append [OF head io_discipline [OF io]])
  have tail: "lock_discipline None (map (Pair i) [LockAcquire, SetSubtract D, LockRelease])"
    by simp
  have all: "lock_discipline None
      (map (Pair i) (([LockAcquire, SetCopy, LockRelease] @ es)
        @ [LockAcquire, SetSubtract D, LockRelease]))"
    unfolding map_append [of _ "[LockAcquire, SetCopy, LockRelease] @ es"]
    by (rule lock_discipline_append [OF mid tail])
  show ?thesis
  proof (cases r)
    case (Some e)
    with False sp have "snd (broadcast w m sends) = w3"
      by (simp add: broadcast_def Let_def active_emit)
    with new_events_append [OF tr] mid show ?thesis by simp
  next
    case None
    show ?thesis
    proof (cases "D = {}")
      case True
      with None False sp have "snd (broadcast w m sends) = w3"
        by (simp add: broadcast_def Let_def active_emit)
      with new_events_append [OF tr] mid show ?thesis by simp
    next
      case nonempty: False
      with None False sp have "trace (snd (broadcast w m sends)) =
          trace w @ ([LockAcquire, SetCopy, LockRelease] @ es)
            @ [LockAcquire, SetSubtract D, LockRelease]"
        by (simp add: broadcast_def Let_def active_emit emit_def tr)
      from new_events_append [OF this] all show ?thesis by simp
    qed
  qed
qed

lemma discipline_suffix:
  "lock_discipline holder (pre @ (i, LockAcquire) # post) \<Longrightarrow> lock_discipline (Some i) post"
  by (induction holder pre rule: lock_discipline.induct) auto

lemma critical_section:
  "lock_discipline (Some i) es \<Longrightarrow>
   \<exists>cs rest. es = map (Pair i) cs @ (i, LockRelease) # rest \<and> list_all is_set_op cs \<and>
     lock_discipline None rest"
proof (induction es)
  case Nil
  then show ?case by simp
next
  case (Cons x es)
  obtain j e where x: "x = (j, e)" by (cases x)
  show ?case
  proof (cases "e = LockRelease")
    case True
    with Cons.prems x have "j = i" "lock_discipline None es" by simp_all
    with True x show ?thesis
      by (intro exI [of _ "[]"] exI [of _ es]) simp
  next
    case False
    with Cons.prems x have e: "is_set_op e" and j: "j = i" and rest: "lock_discipline (Some i) es"
      by (cases e; simp)+
    from Cons.IH [OF rest] obtain cs r where
      "es = map (Pair i) cs @ (i, LockRelease) # r" "list_all is_set_op cs" "lock_discipline None r"
      by blast
    with e j x show ?thesis
      by (intro exI [of _ "e # cs"] exI [of _ r]) simp
  qed
qed

text \<open>
  C5. The events of each call of \<^verbatim>\<open>connect\<close>, \<^verbatim>\<open>disconnect\<close> and \<^verbatim>\<open>broadcast\<close> obey
  the discipline of the lock, and so does the log of every execution: any set of calls of
  the manager and of sends of session handlers, resumed in any order with any answers. No
  send (no await on the transport at all) happens while the lock is held; between an
  acquire and the release that follows it there are only operations on the set (insert,
  remove, snapshot copy, batch removal), all made by the task that holds the lock, so the
  critical section of one task never overlaps an event of another. Driven alone, the
  broadcast task does what \<^verbatim>\<open>broadcast\<close> does.
\<close>

theorem lock_held_only_for_set_operations:
  fixes A :: "websocket set" and ts :: "task list" and choices :: "(nat \<times> unit outcome) list"
  defines "S \<equiv> schedule \<lparr>registry = A, tasks = ts, log = []\<rparr> choices"
  shows "lock_discipline None (map (Pair i) (new_events w (snd (connect w ws answer)))) \<and>
         lock_discipline None (map (Pair i) (new_events w (disconnect w ws))) \<and>
         lock_discipline None (map (Pair i) (new_events w (snd (broadcast w m sends)))) \<and>
         lock_discipline None (log S) \<and>
         (\<forall>pre j post. log S = pre @ (j, LockAcquire) # post \<longrightarrow>
            (\<exists>cs rest. post = map (Pair j) cs @ (j, LockRelease) # rest \<and>
               list_all is_set_op cs)) \<and>
         (card (active_connections w) \<le> n \<longrightarrow>
            drive (Suc n) (ToBroadcast m) sends w =
              (Finished (fst (broadcast w m sends)), snd (broadcast w m sends)))"
proof -
  have run: "lock_discipline None (log S)"
    unfolding S_def by (rule schedule_log) simp
  have sections: "\<forall>pre j post. log S = pre @ (j, LockAcquire) # post \<longrightarrow>
            (\<exists>cs rest. post = map (Pair j) cs @ (j, LockRelease) # rest \<and>
               list_all is_set_op cs)"
  proof (intro allI impI)
    fix pre j post
    assume "log S = pre @ (j, LockAcquire) # post"
    with run have "lock_discipline None (pre @ (j, LockAcquire) # post)" by simp
    then have "lock_discipline (Some j) post" by (rule discipline_suffix)
    from critical_section [OF this]
    show "\<exists>cs rest. post = map (Pair j) cs @ (j, LockRelease) # rest \<and> list_all is_set_op cs"
      by blast
  qed
  have alone: "card (active_connections w) \<le> n \<longrightarrow>
            drive (Suc n) (ToBroadcast m) sends w =
              (Finished (fst (broadcast w m sends)), snd (broadcast w m sends))"
    using broadcast_task_refines by blast
  from connect_discipline [of i w ws answer] disconnect_discipline [of i w ws]
    broadcast_discipline [of i w m sends] run sections alone
  show ?thesis by blast
qed

theorem lock_held_only_for_set_operations_witness:
  "log (schedule \<lparr>registry = {1}, tasks = [ToBroadcast [(''type'', JStr ''notification'')],
                                           ToDisconnect 1, ToConnect 2], log = []\<rparr>
         [(0, Returns ()), (2, Returns ()), (1, Returns ()), (0, Raises RuntimeError)]) =
     [(0, LockAcquire), (0, SetCopy), (0, LockRelease),
      (2, Accept 2 (Returns ())), (2, LockAcquire), (2, SetAdd 2), (2, LockRelease),
      (1, LockAcquire), (1, SetDiscard 1), (1, LockRelease),
      (0, SendJson 1 [(''type'', JStr ''notification'')] (Raises RuntimeError)),
      (0, LockAcquire), (0, SetSubtract {1}), (0, LockRelease)] \<and>
   registry (schedule \<lparr>registry = {1}, tasks = [ToBroadcast [(''type'', JStr ''notification'')],
                                           ToDisconnect 1, ToConnect 2], log = []\<rparr>
         [(0, Returns ()), (2, Returns ()), (1, Returns ()), (0, Raises RuntimeError)]) = {2} \<and>
   lock_discipline None
     (log (schedule \<lparr>registry = {1}, tasks = [ToBroadcast [(''type'', JStr ''notification'')],
                                           ToDisconnect 1, ToConnect 2], log = []\<rparr>
         [(0, Returns ()), (2, Returns ()), (1, Returns ()), (0, Raises RuntimeError)]))"
proof -
  let ?m = "[(''type'', JStr ''notification'')]"
  let ?s = "\<lparr>registry = {1}, tasks = [ToBroadcast ?m, ToDisconnect 1, ToConnect 2], log = []\<rparr>"
  let ?choices = "[(0, Returns ()), (2, Returns ()), (1, Returns ()), (0, Raises RuntimeError)]"
  have run: "schedule ?s ?choices =
     \<lparr>registry = {2}, tasks = [Finished None, Finished None, Finished None],
      log = [(0, LockAcquire), (0, SetCopy), (0, LockRelease),
      (2, Accept 2 (Returns ())), (2, LockAcquire), (2, SetAdd 2), (2, LockRelease),
      (1, LockAcquire), (1, SetDiscard 1), (1, LockRelease),
      (0, SendJson 1 ?m (Raises RuntimeError)),
      (0, LockAcquire), (0, SetSubtract {1}), (0, LockRelease)]\<rparr>"
    by (simp add: sched_step_def next_send_def finish_broadcast_def connect_def disconnect_def
        Let_def emit_def is_Exception_def insert_commute)
  have ok: "lock_discipline None (log (schedule ?s ?choices))"
    using lock_held_only_for_set_operations [where A = "{1}"
        and ts = "[ToBroadcast ?m, ToDisconnect 1, ToConnect 2]" and choices = ?choices]
    by blast
  from run ok show ?thesis by simp
qed

end
